theory Spec2Isabelle
  imports Main "HOL-Library.Word"
begin

section \<open>The block cache (block\_cache.hpp, block\_cache.cpp)\<close>

text \<open>
  Machine integers are words: \<open>uint64_t\<close> and \<open>size_t\<close> (64 bits on the
  target) are \<open>64 word\<close>, bytes are \<open>8 word\<close>. The C \<open>int\<close> values that
  matter (return codes, the adaptive timeout) are HOL integers, with the narrowing
  conversion written out where the source narrows.
\<close>

type_synonym u8 = "8 word"
type_synonym u64 = "64 word"

text \<open>\<open>constexpr size_t BLOCK_SIZE = 128 * 1024;\<close>\<close>

definition BLOCK_SIZE :: u64 where
  "BLOCK_SIZE = 128 * 1024"

definition UINT64_MAX :: u64 where
  "UINT64_MAX = 18446744073709551615"

text \<open>
  \<open>struct Slot\<close>: the payload array of \<open>BLOCK_SIZE\<close> bytes is a byte list, the
  other three fields are as declared.
\<close>

record Slot =
  data :: "u8 list"
  block_id :: u64
  valid :: bool
  last_access :: u64

text \<open>
  The members of \<open>class BlockCache\<close>. The unordered map from block id to slot
  index is a partial function; a slot index is a natural number (the source keeps it
  in an \<open>int\<close>, which agrees for fewer than \<open>2^31\<close> slots). Mutex and condition
  variable carry no data; every operation below is one critical section.
\<close>

record BlockCache =
  slots :: "Slot list"
  id_to_slot :: "u64 \<rightharpoonup> nat"
  capacity_slots :: u64
  access_counter :: u64

text \<open>\<open>std::make_unique<Slot>()\<close> value-initialises: zeroed payload, default members.\<close>

definition new_Slot :: Slot where
  "new_Slot = \<lparr>data = replicate (unat BLOCK_SIZE) 0, block_id = 0, valid = False, last_access = 0\<rparr>"

text \<open>The singleton before any call: no slots, empty map, counters zero.\<close>

definition instance0 :: BlockCache where
  "instance0 = \<lparr>slots = [], id_to_slot = Map.empty, capacity_slots = 0, access_counter = 0\<rparr>"

text \<open>
  \<open>BlockCache::init(size_t capacity_mb)\<close>. The product \<open>capacity_mb * 1024 * 1024\<close>
  is computed in \<open>size_t\<close> and wraps. Allocation is taken to succeed.
\<close>

definition init :: "u64 \<Rightarrow> BlockCache \<Rightarrow> BlockCache" where
  "init capacity_mb c =
     (let capacity_mb' = (if capacity_mb \<le> 0 then 64 else capacity_mb);
          new_slots = (capacity_mb' * 1024 * 1024) div BLOCK_SIZE
      in if slots c = []
         then c\<lparr>slots := replicate (unat new_slots) new_Slot, capacity_slots := new_slots\<rparr>
         else c)"

text \<open>
  \<open>extern "C" void cache_init(int capacity_mb)\<close> passes its \<open>int\<close> to the
  \<open>size_t\<close> parameter: the implicit conversion is reduction modulo \<open>2^64\<close>.
\<close>

definition cache_init :: "int \<Rightarrow> BlockCache \<Rightarrow> BlockCache" where
  "cache_init capacity_mb c = init (word_of_int capacity_mb) c"

text \<open>
  \<open>BlockCache::evict_lru\<close>. The first loop returns the first invalid slot; the
  second keeps the first slot whose stamp is strictly below the running minimum,
  which starts at \<open>UINT64_MAX\<close>. \<open>None\<close> is the source's \<open>-1\<close>.
\<close>

fun find_invalid :: "Slot list \<Rightarrow> nat \<Rightarrow> nat option" where
  "find_invalid [] i = None"
| "find_invalid (s # ss) i = (if \<not> valid s then Some i else find_invalid ss (i + 1))"

fun find_lru :: "Slot list \<Rightarrow> nat \<Rightarrow> nat option \<Rightarrow> u64 \<Rightarrow> nat option" where
  "find_lru [] i victim_idx min_access = victim_idx"
| "find_lru (s # ss) i victim_idx min_access =
     (if last_access s < min_access
      then find_lru ss (i + 1) (Some i) (last_access s)
      else find_lru ss (i + 1) victim_idx min_access)"

definition evict_lru :: "BlockCache \<Rightarrow> nat option \<times> BlockCache" where
  "evict_lru c =
     (case find_invalid (slots c) 0 of
        Some i \<Rightarrow> (Some i, c)
      | None \<Rightarrow>
          (case find_lru (slots c) 0 None UINT64_MAX of
             None \<Rightarrow> (None, c)
           | Some v \<Rightarrow>
               (Some v,
                c\<lparr>id_to_slot := (id_to_slot c)(block_id (slots c ! v) := None),
                  slots := (slots c)[v := (slots c ! v)\<lparr>valid := False\<rparr>]\<rparr>)))"

text \<open>
  \<open>BlockCache::put_block(block_id, data, len)\<close>. The source buffer is
  \<open>None\<close> for a null pointer, and then the \<open>memcpy\<close> is skipped. \<open>memcpy\<close>
  overwrites the first \<open>n\<close> bytes of the destination; the \<open>memset\<close> zeroes the
  payload from \<open>copy_len\<close> to its end.
\<close>

definition memcpy :: "u8 list \<Rightarrow> u8 list \<Rightarrow> nat \<Rightarrow> u8 list" where
  "memcpy dst src n = take n src @ drop n dst"

definition put_block :: "u64 \<Rightarrow> u8 list option \<Rightarrow> u64 \<Rightarrow> BlockCache \<Rightarrow> BlockCache" where
  "put_block bid src len c =
     (if id_to_slot c bid \<noteq> None then c
      else case evict_lru c of
          (None, c1) \<Rightarrow> c1
        | (Some slot_idx, c1) \<Rightarrow>
            (let slot = slots c1 ! slot_idx;
                 copy_len = min len BLOCK_SIZE;
                 d1 = (case src of None \<Rightarrow> data slot
                       | Some bytes \<Rightarrow> memcpy (data slot) bytes (unat copy_len));
                 d2 = (if copy_len < BLOCK_SIZE
                       then take (unat copy_len) d1 @ replicate (unat (BLOCK_SIZE - copy_len)) 0
                       else d1);
                 counter = access_counter c1 + 1
             in c1\<lparr>slots := (slots c1)[slot_idx :=
                        slot\<lparr>data := d2, block_id := bid, valid := True, last_access := counter\<rparr>],
                   access_counter := counter,
                   id_to_slot := (id_to_slot c1)(bid \<mapsto> slot_idx)\<rparr>))"

text \<open>\<open>extern "C" void cache_put(uint64_t block_id, const uint8_t* data, int len)\<close>\<close>

definition cache_put :: "u64 \<Rightarrow> u8 list option \<Rightarrow> int \<Rightarrow> BlockCache \<Rightarrow> BlockCache" where
  "cache_put bid src len c = put_block bid src (word_of_int len) c"

text \<open>\<open>BlockCache::invalidate_block\<close>\<close>

definition invalidate_block :: "u64 \<Rightarrow> BlockCache \<Rightarrow> BlockCache" where
  "invalidate_block bid c =
     (case id_to_slot c bid of
        None \<Rightarrow> c
      | Some i \<Rightarrow> c\<lparr>slots := (slots c)[i := (slots c ! i)\<lparr>valid := False\<rparr>],
                   id_to_slot := (id_to_slot c)(bid := None)\<rparr>)"

text \<open>
  \<open>slot->last_access = ++access_counter_\<close>, shared by \<open>get_block_ptr\<close> and
  \<open>read\<close>.
\<close>

definition touch :: "nat \<Rightarrow> BlockCache \<Rightarrow> BlockCache" where
  "touch i c =
     (let counter = access_counter c + 1
      in c\<lparr>slots := (slots c)[i := (slots c ! i)\<lparr>last_access := counter\<rparr>],
           access_counter := counter\<rparr>)"

text \<open>
  \<open>BlockCache::get_block_ptr\<close>: the returned pointer is the index of the slot whose
  payload it points into, \<open>None\<close> for \<open>nullptr\<close>.
\<close>

definition get_block_ptr :: "u64 \<Rightarrow> BlockCache \<Rightarrow> nat option \<times> BlockCache" where
  "get_block_ptr bid c =
     (case id_to_slot c bid of
        Some i \<Rightarrow> (Some i, touch i c)
      | None \<Rightarrow> (None, c))"

text \<open>\<open>extern "C" int cache_has_block(uint64_t block_id)\<close>\<close>

definition cache_has_block :: "u64 \<Rightarrow> BlockCache \<Rightarrow> int \<times> BlockCache" where
  "cache_has_block bid c =
     (case get_block_ptr bid c of (p, c') \<Rightarrow> (if p \<noteq> None then 1 else 0, c'))"

subsection \<open>The multi-block read\<close>

text \<open>
  \<open>static_cast<int>(copied)\<close>: the low 32 bits, read as two's complement.
\<close>

definition to_int :: "u64 \<Rightarrow> int" where
  "to_int w = sint (ucast w :: 32 word)"

text \<open>
  The \<open>for\<close> loop of \<open>BlockCache::read\<close>, one call per test of \<open>b <= end_block\<close>.
  The result is the returned \<open>int\<close>, the bytes written to \<open>out_buffer\<close> so far,
  the value stored through \<open>out_actual_len\<close> (\<open>None\<close> when the function returns
  before the store) and the cache. \<open>out_buffer\<close> is \<open>True\<close> for a non-null
  pointer. The loop counter cannot wrap, since \<open>end_block\<close> is a quotient by
  \<open>BLOCK_SIZE\<close>; that is the termination argument.
\<close>

function read_loop ::
  "u64 \<Rightarrow> u64 \<Rightarrow> bool \<Rightarrow> u64 \<Rightarrow> u64 \<Rightarrow> u8 list \<Rightarrow> BlockCache
     \<Rightarrow> int \<times> u8 list \<times> u64 option \<times> BlockCache" where
  "read_loop offset len out_buffer b copied out c =
     (let start_block = offset div BLOCK_SIZE;
          end_block = (offset + len - 1) div BLOCK_SIZE
      in if b \<le> end_block then
           (case id_to_slot c b of
              None \<Rightarrow>
                if copied > 0 then (to_int copied, out, Some copied, c)
                else (- 1, out, None, c)
            | Some i \<Rightarrow>
                (let c' = touch i c;
                     block_offset = (if b = start_block then offset mod BLOCK_SIZE else 0);
                     available = BLOCK_SIZE - block_offset;
                     remaining_req = len - copied;
                     to_copy = min available remaining_req;
                     out' = (if out_buffer
                             then out @ take (unat to_copy) (drop (unat block_offset) (data (slots c ! i)))
                             else out)
                 in read_loop offset len out_buffer (b + 1) (copied + to_copy) out' c'))
         else (to_int copied, out, Some copied, c))"
  by pat_completeness auto
termination
proof (relation "measure (\<lambda>(offset, len, out_buffer, b, copied, out, c).
        Suc (unat ((offset + len - 1) div BLOCK_SIZE)) - unat b)", goal_cases)
  case 1
  show ?case by simp
next
  case (2 offset len out_buffer b copied out c x y i)
  have "unat ((offset + len - 1) div BLOCK_SIZE) \<le> unat (offset + len - 1) div 131072"
    by (simp add: unat_div BLOCK_SIZE_def)
  moreover have "unat (offset + len - 1) < 2 ^ 64"
    using unsigned_less [of "offset + len - 1", where 'a = nat] by simp
  moreover have "unat b \<le> unat ((offset + len - 1) div BLOCK_SIZE)"
    using 2 by (simp add: word_le_nat_alt)
  ultimately have "unat (b + 1) = Suc (unat b)"
    "unat b \<le> unat ((offset + len - 1) div BLOCK_SIZE)"
    by (simp_all add: unat_word_ariths)
  then show ?case by simp
qed

definition read :: "u64 \<Rightarrow> u64 \<Rightarrow> bool \<Rightarrow> BlockCache \<Rightarrow> int \<times> u8 list \<times> u64 option \<times> BlockCache" where
  "read offset len out_buffer c =
     (if id_to_slot c = Map.empty then (- 1, [], None, c)
      else read_loop offset len out_buffer (offset div BLOCK_SIZE) 0 [] c)"

text \<open>\<open>extern "C" int cache_read(uint64_t offset, int len, uint8_t* out_ptr)\<close>\<close>

definition cache_read :: "u64 \<Rightarrow> int \<Rightarrow> bool \<Rightarrow> BlockCache \<Rightarrow> int \<times> u8 list \<times> BlockCache" where
  "cache_read offset len out_ptr c =
     (case read offset (word_of_int len) out_ptr c of (r, out, a, c') \<Rightarrow> (r, out, c'))"

subsection \<open>Waiting for a block\<close>

text \<open>
  \<open>BlockCache::wait_for_block\<close> returns at once when the block is mapped. Otherwise
  it sleeps on the condition variable, and what it returns is the predicate at its
  last evaluation, at a wake-up or at the deadline. The other threads are the filler's
  calls of \<open>put_block\<close>; the list \<open>arrivals\<close> holds those that ran before that
  last evaluation, in order. Whether the deadline was reached is thereby the
  environment's choice, so \<open>timeout_ms\<close> does not enter the result.
\<close>

type_synonym put_args = "u64 \<times> u8 list option \<times> u64"

definition concurrent_puts :: "put_args list \<Rightarrow> BlockCache \<Rightarrow> BlockCache" where
  "concurrent_puts ps c = fold (\<lambda>(b, src, len). put_block b src len) ps c"

definition wait_for_block :: "u64 \<Rightarrow> int \<Rightarrow> put_args list \<Rightarrow> BlockCache \<Rightarrow> bool \<times> BlockCache" where
  "wait_for_block bid timeout_ms arrivals c =
     (if id_to_slot c bid \<noteq> None then (True, c)
      else (let c' = concurrent_puts arrivals c in (id_to_slot c' bid \<noteq> None, c')))"

section \<open>The VFS read and write paths (libretro\_vfs\_impl.cpp)\<close>

text \<open>
  \<open>struct RetroNfsFile\<close>: the connection, the network handle and the mutex pointer
  are opaque to the read and write paths; the two integers are the data.
\<close>

record RetroNfsFile =
  file_offset :: u64
  file_size :: u64

text \<open>
  The process-wide state the two paths touch: the cache singleton,
  \<open>g_adaptive_timeout_ms\<close>, whether \<open>g_prefetch_callback\<close> is registered, and the
  block ids the callback has been called with, oldest first.
\<close>

record vfs_state =
  cache :: BlockCache
  g_adaptive_timeout_ms :: int
  g_prefetch_callback :: bool
  hints :: "u64 list"

text \<open>\<open>static int g_adaptive_timeout_ms = 4;\<close> and the other initial values.\<close>

definition vfs_state0 :: vfs_state where
  "vfs_state0 = \<lparr>cache = instance0, g_adaptive_timeout_ms = 4, g_prefetch_callback = False, hints = []\<rparr>"

definition prefetch :: "u64 \<Rightarrow> vfs_state \<Rightarrow> vfs_state" where
  "prefetch b st = st\<lparr>hints := hints st @ [b]\<rparr>"

text \<open>
  One wait of the read path as the environment decides it: the filler's puts that
  arrive during the wait, and the milliseconds the steady clock measures around it.
\<close>

record wait_event =
  arrivals :: "put_args list"
  wait_ms :: int

text \<open>
  The \<open>while (total_read < len)\<close> loop of \<open>retro_vfs_read\<close>. Every iteration that
  goes round again has waited, so the recursion is on the schedule of waits; a
  schedule that ends while the loop still waits gives \<open>None\<close>. The result is
  \<open>total_read\<close>, the first \<open>total_read\<close> bytes of the caller's buffer, and the state.
\<close>

fun cache_loop ::
  "wait_event list \<Rightarrow> RetroNfsFile \<Rightarrow> u64 \<Rightarrow> u64 \<Rightarrow> u8 list \<Rightarrow> vfs_state
     \<Rightarrow> (u64 \<times> u8 list \<times> vfs_state) option" where
  "cache_loop sched file len total_read buf st =
     (if total_read < len then
        (let current_pos = file_offset file + total_read
         in case read current_pos (len - total_read) True (cache st) of
           (res, out, actual, c1) \<Rightarrow>
             (let actual_copied = (case actual of None \<Rightarrow> 0 | Some n \<Rightarrow> n);
                  t = g_adaptive_timeout_ms st
              in if res > 0 then
                   (let total_read' = total_read + actual_copied;
                        buf' = buf @ out
                    in if total_read' \<ge> len then Some (total_read', buf', st\<lparr>cache := c1\<rparr>)
                       else
                         (let missing_block_id = (file_offset file + total_read') div BLOCK_SIZE
                          in case sched of
                               [] \<Rightarrow> None
                             | ev # sched' \<Rightarrow>
                                 (case wait_for_block missing_block_id t (arrivals ev) c1 of
                                    (success, c2) \<Rightarrow>
                                      if success then
                                        cache_loop sched' file len total_read' buf'
                                          (st\<lparr>cache := c2,
                                              g_adaptive_timeout_ms :=
                                                (if wait_ms ev < t div 2 \<and> t > 2 then t - 1 else t)\<rparr>)
                                      else
                                        Some (total_read', buf',
                                          st\<lparr>cache := c2,
                                             g_adaptive_timeout_ms := (if t < 20 then t + 2 else t)\<rparr>))))
                 else
                   (let missing_block_id = current_pos div BLOCK_SIZE
                    in case sched of
                         [] \<Rightarrow> None
                       | ev # sched' \<Rightarrow>
                           (case wait_for_block missing_block_id t (arrivals ev) c1 of
                              (success, c2) \<Rightarrow>
                                if success then cache_loop sched' file len total_read buf (st\<lparr>cache := c2\<rparr>)
                                else Some (total_read, buf, st\<lparr>cache := c2\<rparr>)))))
      else Some (total_read, buf, st))"

text \<open>
  The backfill loop after a synchronous read that delivered \<open>sync_res > 0\<close> bytes at
  \<open>current_pos\<close>; \<open>bytes\<close> is what the transport wrote at \<open>buf + total_read\<close>.
\<close>

function backfill :: "u64 \<Rightarrow> int \<Rightarrow> u8 list \<Rightarrow> u64 \<Rightarrow> vfs_state \<Rightarrow> vfs_state" where
  "backfill current_pos sync_res bytes b st =
     (let sync_end = current_pos + word_of_int sync_res;
          last_block = (sync_end - 1) div BLOCK_SIZE
      in if b \<le> last_block then
           (let b_start = b * BLOCK_SIZE;
                b_end = b_start + BLOCK_SIZE;
                st' = (if current_pos \<le> b_start \<and> sync_end \<ge> b_end then
                         (let buf_offset = b_start - current_pos
                          in st\<lparr>cache := put_block b (Some (drop (unat buf_offset) bytes)) BLOCK_SIZE (cache st)\<rparr>)
                       else if word_of_int sync_res < BLOCK_SIZE \<and> g_prefetch_callback st
                       then prefetch b st
                       else st)
            in backfill current_pos sync_res bytes (b + 1) st')
         else st)"
  by pat_completeness auto
termination
proof (relation "measure (\<lambda>(current_pos, sync_res, bytes, b, st).
        Suc (unat ((current_pos + word_of_int sync_res - 1) div BLOCK_SIZE)) - unat b)", goal_cases)
  case 1
  show ?case by simp
next
  case (2 current_pos sync_res bytes b st x y xa xb xc)
  have "unat (current_pos + word_of_int sync_res - 1) div 131072 < 2 ^ 64 - 1"
    using unsigned_less [of "current_pos + word_of_int sync_res - 1", where 'a = nat] by simp
  moreover have "unat b \<le> unat ((current_pos + word_of_int sync_res - 1) div BLOCK_SIZE)"
    using 2 by (simp add: word_le_nat_alt)
  ultimately have "unat (b + 1) = Suc (unat b)"
    "unat b \<le> unat ((current_pos + word_of_int sync_res - 1) div BLOCK_SIZE)"
    by (simp_all add: unat_word_ariths unat_div BLOCK_SIZE_def)
  then show ?case by simp
qed

text \<open>
  \<open>static int64_t retro_vfs_read(stream, s, len)\<close>. The transport call
  \<open>nfs_pread(nfs, fh, buf + total_read, remaining_len, current_pos)\<close> is the function
  \<open>nfs_pread\<close> of the count and the position, giving the returned \<open>int\<close> and the
  bytes it stored. \<open>s\<close> is \<open>True\<close> for a non-null buffer. The result is the returned
  value, the delivered bytes, the handle and the state.
\<close>

definition retro_vfs_read ::
  "wait_event list \<Rightarrow> (u64 \<Rightarrow> u64 \<Rightarrow> int \<times> u8 list) \<Rightarrow> RetroNfsFile option \<Rightarrow> bool \<Rightarrow> u64
     \<Rightarrow> vfs_state \<Rightarrow> (int \<times> u8 list \<times> RetroNfsFile option \<times> vfs_state) option" where
  "retro_vfs_read sched nfs_pread stream s len st =
     (case stream of
        None \<Rightarrow> Some (- 1, [], None, st)
      | Some file \<Rightarrow>
          if \<not> s then Some (- 1, [], Some file, st)
          else
            (let start_offset = file_offset file;
                 start_block = start_offset div BLOCK_SIZE;
                 st0 = (if g_prefetch_callback st
                        then prefetch (start_block + 2) (prefetch (start_block + 1) (prefetch start_block st))
                        else st)
             in case cache_loop sched file len 0 [] st0 of
                  None \<Rightarrow> None
                | Some (total_read, buf, st1) \<Rightarrow>
                    (case (if total_read < len then
                             (let remaining_len = len - total_read;
                                  current_pos = file_offset file + total_read
                              in case nfs_pread remaining_len current_pos of
                                   (sync_res, bytes) \<Rightarrow>
                                     if sync_res > 0 then
                                       (total_read + word_of_int sync_res,
                                        buf @ take (nat sync_res) bytes,
                                        backfill current_pos sync_res bytes (current_pos div BLOCK_SIZE) st1)
                                     else (total_read, buf, st1))
                           else (total_read, buf, st1)) of
                       (total_read', buf', st2) \<Rightarrow>
                         if total_read' > 0
                         then Some (sint total_read', buf',
                                    Some (file\<lparr>file_offset := file_offset file + total_read'\<rparr>), st2)
                         else Some (- 1, buf', Some file, st2))))"

text \<open>
  \<open>static int64_t retro_vfs_write(stream, s, len)\<close>: the invalidation loop, then the
  function. \<open>nfs_pwrite\<close> is the transport, a function of the count and the position
  giving the returned \<open>int\<close>.
\<close>

function invalidate_range :: "u64 \<Rightarrow> int \<Rightarrow> u64 \<Rightarrow> BlockCache \<Rightarrow> BlockCache" where
  "invalidate_range offset res b c =
     (let end_block = (offset + word_of_int res - 1) div BLOCK_SIZE
      in if b \<le> end_block then invalidate_range offset res (b + 1) (invalidate_block b c)
         else c)"
  by pat_completeness auto
termination
proof (relation "measure (\<lambda>(offset, res, b, c).
        Suc (unat ((offset + word_of_int res - 1) div BLOCK_SIZE)) - unat b)", goal_cases)
  case 1
  show ?case by simp
next
  case (2 offset res b c x)
  have "unat (offset + word_of_int res - 1) div 131072 < 2 ^ 64 - 1"
    using unsigned_less [of "offset + word_of_int res - 1", where 'a = nat] by simp
  moreover have "unat b \<le> unat ((offset + word_of_int res - 1) div BLOCK_SIZE)"
    using 2 by (simp add: word_le_nat_alt)
  ultimately have "unat (b + 1) = Suc (unat b)"
    "unat b \<le> unat ((offset + word_of_int res - 1) div BLOCK_SIZE)"
    by (simp_all add: unat_word_ariths unat_div BLOCK_SIZE_def)
  then show ?case by simp
qed

definition retro_vfs_write ::
  "(u64 \<Rightarrow> u64 \<Rightarrow> int) \<Rightarrow> RetroNfsFile option \<Rightarrow> u64 \<Rightarrow> vfs_state
     \<Rightarrow> int \<times> RetroNfsFile option \<times> vfs_state" where
  "retro_vfs_write nfs_pwrite stream len st =
     (case stream of
        None \<Rightarrow> (- 1, None, st)
      | Some file \<Rightarrow>
          (let res = nfs_pwrite len (file_offset file)
           in if res > 0 then
                (let start_block = file_offset file div BLOCK_SIZE
                 in (res,
                     Some (file\<lparr>file_offset := file_offset file + word_of_int res\<rparr>),
                     st\<lparr>cache := invalidate_range (file_offset file) res start_block (cache st)\<rparr>))
              else (res, Some file, st)))"

section \<open>Invariant and example states\<close>

text \<open>
  Every mapped block id indexes a valid slot that carries this id, and every valid
  slot is the one its block id is mapped to.
\<close>

definition exclusive_mapping :: "BlockCache \<Rightarrow> bool" where
  "exclusive_mapping c \<longleftrightarrow>
     (\<forall>b i. id_to_slot c b = Some i \<longrightarrow>
        i < length (slots c) \<and> valid (slots c ! i) \<and> block_id (slots c ! i) = b) \<and>
     (\<forall>i < length (slots c). valid (slots c ! i) \<longrightarrow>
        id_to_slot c (block_id (slots c ! i)) = Some i)"

text \<open>
  Two states for the examples: the cache after \<open>cache_init(1)\<close>, which has eight
  free slots, and the same cache after eight puts of the block ids 10 to 17, which
  is full.
\<close>

definition cache8 :: BlockCache where
  "cache8 = init 1 instance0"

definition full8 :: BlockCache where
  "full8 = fold (\<lambda>b. put_block b None 0) [10, 11, 12, 13, 14, 15, 16, 17] cache8"

text \<open>
  Handles, transports, wait events and states for the examples of the read and write
  paths. \<open>after_read\<close> is the state a read leaves behind.
\<close>

definition failing_pread :: "u64 \<Rightarrow> u64 \<Rightarrow> int \<times> u8 list" where
  "failing_pread n pos = (- 1, [])"

definition file0 :: RetroNfsFile where
  "file0 = \<lparr>file_offset = 0, file_size = 4194304\<rparr>"

definition file_a :: RetroNfsFile where
  "file_a = \<lparr>file_offset = 2359295, file_size = 4194304\<rparr>"

definition file_b :: RetroNfsFile where
  "file_b = \<lparr>file_offset = 2490367, file_size = 4194304\<rparr>"

definition st8 :: vfs_state where
  "st8 = \<lparr>cache = full8, g_adaptive_timeout_ms = 4, g_prefetch_callback = True, hints = []\<rparr>"

definition st_cold :: vfs_state where
  "st_cold = \<lparr>cache = cache8, g_adaptive_timeout_ms = 4, g_prefetch_callback = False, hints = []\<rparr>"

definition st_warm :: vfs_state where
  "st_warm = \<lparr>cache = full8, g_adaptive_timeout_ms = 4, g_prefetch_callback = False, hints = []\<rparr>"

definition timed_out :: wait_event where
  "timed_out = \<lparr>arrivals = [], wait_ms = 4\<rparr>"

definition arrives_fast :: wait_event where
  "arrives_fast = \<lparr>arrivals = [(18, None, 0)], wait_ms = 0\<rparr>"

definition after_read :: "wait_event list \<Rightarrow> RetroNfsFile \<Rightarrow> u64 \<Rightarrow> vfs_state \<Rightarrow> vfs_state" where
  "after_read sched file len st =
     snd (snd (snd (the (retro_vfs_read sched failing_pread (Some file) True len st))))"

definition slow_read :: "vfs_state \<Rightarrow> vfs_state" where
  "slow_read st = after_read [timed_out] file_b 2 st"

definition pwrite_two :: "u64 \<Rightarrow> u64 \<Rightarrow> int" where
  "pwrite_two n pos = 2"

definition file_top :: RetroNfsFile where
  "file_top = \<lparr>file_offset = 18446744073709551615, file_size = 18446744073709551615\<rparr>"

definition st_top :: vfs_state where
  "st_top = \<lparr>cache = put_block 140737488355327 None 0 cache8, g_adaptive_timeout_ms = 4,
             g_prefetch_callback = False, hints = []\<rparr>"

definition st_written :: vfs_state where
  "st_written = \<lparr>cache = put_block 1 None 0 (put_block 0 None 0 cache8), g_adaptive_timeout_ms = 4,
             g_prefetch_callback = False, hints = []\<rparr>"

definition pwrite_fail :: "u64 \<Rightarrow> u64 \<Rightarrow> int" where
  "pwrite_fail n pos = - 1"

definition file_w :: RetroNfsFile where
  "file_w = \<lparr>file_offset = 131071, file_size = 4194304\<rparr>"

text \<open>
  The multi-block read as section 4.1.2 of the specification words it, over natural
  numbers: the needed blocks in order, \<open>None\<close> for \<open>MISS\<close> when a block is missing
  and nothing was copied, the partial count when a later block is missing, and for a
  present block \<open>min(B - block_offset, len - copied)\<close> bytes from \<open>block_offset\<close>,
  which is \<open>offset mod B\<close> in the first block and 0 afterwards.
\<close>

definition spec_B :: nat where
  "spec_B = 128 * 1024"

function spec_read_blocks ::
  "BlockCache \<Rightarrow> nat \<Rightarrow> nat \<Rightarrow> nat list \<Rightarrow> nat \<Rightarrow> u8 list \<Rightarrow> (nat \<times> u8 list) option" where
  "spec_read_blocks c off len [] copied out = Some (copied, out)"
| "spec_read_blocks c off len (b # bs) copied out =
     (case id_to_slot c (of_nat b) of
        None \<Rightarrow> if copied = 0 then None else Some (copied, out)
      | Some i \<Rightarrow>
          (let block_offset = (if b = off div spec_B then off mod spec_B else 0);
               n = min (spec_B - block_offset) (len - copied)
           in spec_read_blocks c off len bs (copied + n)
                (out @ take n (drop block_offset (data (slots c ! i))))))"
  by pat_completeness auto
termination
  by (relation "measure (\<lambda>(c, off, len, bs, copied, out). length bs)") auto

definition spec_read :: "BlockCache \<Rightarrow> nat \<Rightarrow> nat \<Rightarrow> (nat \<times> u8 list) option" where
  "spec_read c off len =
     spec_read_blocks c off len [off div spec_B ..< Suc ((off + len - 1) div spec_B)] 0 []"

declare read_loop.simps [simp del]
declare backfill.simps [simp del]
declare invalidate_range.simps [simp del]
declare cache_loop.simps [simp del]

section \<open>Properties\<close>

subsection \<open>Eviction\<close>

lemma find_invalid_None: "find_invalid ss k = None \<longleftrightarrow> (\<forall>s \<in> set ss. valid s)"
  by (induction ss arbitrary: k) auto

lemma find_invalid_Some:
  "find_invalid ss k = Some i \<Longrightarrow> k \<le> i \<and> i - k < length ss \<and> \<not> valid (ss ! (i - k))"
proof (induction ss arbitrary: k)
  case Nil
  then show ?case by simp
next
  case (Cons s ss)
  show ?case
  proof (cases "valid s")
    case False
    with Cons.prems show ?thesis by simp
  next
    case True
    with Cons.prems have "find_invalid ss (Suc k) = Some i" by simp
    from Cons.IH [OF this] have "Suc k \<le> i" "i - Suc k < length ss" "\<not> valid (ss ! (i - Suc k))"
      by simp_all
    moreover from \<open>Suc k \<le> i\<close> have "i - k = Suc (i - Suc k)" by simp
    ultimately show ?thesis by simp
  qed
qed

lemma find_lru_none: "\<forall>s \<in> set ss. \<not> last_access s < m \<Longrightarrow> find_lru ss k vic m = vic"
  by (induction ss arbitrary: k) auto

lemma find_lru_some:
  "\<exists>s \<in> set ss. last_access s < m \<Longrightarrow>
   \<exists>j < length ss. find_lru ss k vic m = Some (k + j) \<and> last_access (ss ! j) < m \<and>
      (\<forall>s \<in> set ss. last_access (ss ! j) \<le> last_access s)"
proof (induction ss arbitrary: k vic m)
  case Nil
  then show ?case by simp
next
  case (Cons s ss)
  show ?case
  proof (cases "last_access s < m")
    case True
    show ?thesis
    proof (cases "\<exists>t \<in> set ss. last_access t < last_access s")
      case True
      from Cons.IH [OF this, of "Suc k" "Some k"] obtain j where
        j: "j < length ss" "find_lru ss (Suc k) (Some k) (last_access s) = Some (Suc k + j)"
           "last_access (ss ! j) < last_access s" "\<forall>t \<in> set ss. last_access (ss ! j) \<le> last_access t"
        by blast
      with \<open>last_access s < m\<close> show ?thesis
        by (intro exI [of _ "Suc j"]) auto
    next
      case False
      then have "find_lru ss (Suc k) (Some k) (last_access s) = Some k"
        by (intro find_lru_none) simp
      with \<open>last_access s < m\<close> False show ?thesis
        by (intro exI [of _ 0]) (auto simp: not_less)
    qed
  next
    case False
    with Cons.prems have "\<exists>t \<in> set ss. last_access t < m" by auto
    from Cons.IH [OF this, of "Suc k" vic] obtain j where
      j: "j < length ss" "find_lru ss (Suc k) vic m = Some (Suc k + j)"
         "last_access (ss ! j) < m" "\<forall>t \<in> set ss. last_access (ss ! j) \<le> last_access t"
      by blast
    with False show ?thesis
      by (intro exI [of _ "Suc j"]) (auto simp: not_less)
  qed
qed

lemma evict_lru_invalid:
  assumes "find_invalid (slots c) 0 = Some i"
  shows "evict_lru c = (Some i, c)" "i < length (slots c)" "\<not> valid (slots c ! i)"
  using assms find_invalid_Some [OF assms] by (simp_all add: evict_lru_def)

lemma evict_lru_full:
  assumes "\<forall>s \<in> set (slots c). valid s" "\<exists>s \<in> set (slots c). last_access s \<noteq> UINT64_MAX"
  shows "\<exists>v < length (slots c).
           evict_lru c = (Some v, c\<lparr>id_to_slot := (id_to_slot c)(block_id (slots c ! v) := None),
                                    slots := (slots c)[v := (slots c ! v)\<lparr>valid := False\<rparr>]\<rparr>) \<and>
           (\<forall>s \<in> set (slots c). last_access (slots c ! v) \<le> last_access s)"
proof -
  have none: "find_invalid (slots c) 0 = None"
    using assms(1) by (simp add: find_invalid_None)
  have "x \<noteq> UINT64_MAX \<Longrightarrow> x < UINT64_MAX" for x
  proof -
    assume "x \<noteq> UINT64_MAX"
    then have "unat x \<noteq> 18446744073709551615"
      by (simp add: word_unat_eq_iff UINT64_MAX_def)
    moreover have "unat x < 2 ^ 64"
      using unsigned_less [of x, where 'a = nat] by simp
    ultimately show ?thesis
      by (simp add: word_less_nat_alt UINT64_MAX_def)
  qed
  with assms(2) have "\<exists>s \<in> set (slots c). last_access s < UINT64_MAX"
    by blast
  from find_lru_some [OF this, of 0 None] obtain j where
    "j < length (slots c)" "find_lru (slots c) 0 None UINT64_MAX = Some j"
    "\<forall>s \<in> set (slots c). last_access (slots c ! j) \<le> last_access s"
    by auto
  with none show ?thesis
    by (intro exI [of _ j]) (simp add: evict_lru_def)
qed

lemma evict_lru_cases:
  obtains (free) i where "evict_lru c = (Some i, c)" "i < length (slots c)" "\<not> valid (slots c ! i)"
  | (none) "evict_lru c = (None, c)"
  | (lru) v where "v < length (slots c)" "\<forall>s \<in> set (slots c). valid s"
      "evict_lru c = (Some v, c\<lparr>id_to_slot := (id_to_slot c)(block_id (slots c ! v) := None),
                                    slots := (slots c)[v := (slots c ! v)\<lparr>valid := False\<rparr>]\<rparr>)"
proof (cases "find_invalid (slots c) 0")
  case (Some i)
  from evict_lru_invalid [OF this] show ?thesis by (rule free)
next
  case None
  then have allv: "\<forall>s \<in> set (slots c). valid s" by (simp add: find_invalid_None)
  show ?thesis
  proof (cases "\<exists>s \<in> set (slots c). last_access s \<noteq> UINT64_MAX")
    case True
    from evict_lru_full [OF allv True] obtain v where "v < length (slots c)"
      "evict_lru c = (Some v, c\<lparr>id_to_slot := (id_to_slot c)(block_id (slots c ! v) := None),
                                    slots := (slots c)[v := (slots c ! v)\<lparr>valid := False\<rparr>]\<rparr>)"
      by blast
    with allv show ?thesis by (intro lru) 
  next
    case False
    then have "\<forall>s \<in> set (slots c). \<not> last_access s < UINT64_MAX"
      by auto
    then have "find_lru (slots c) 0 None UINT64_MAX = None"
      by (rule find_lru_none)
    with None have "evict_lru c = (None, c)" by (simp add: evict_lru_def)
    then show ?thesis by (rule none)
  qed
qed

text \<open>What eviction hands to \<open>put_block\<close>: an invalid slot in a cache that still satisfies the invariant.\<close>

lemma exclusive_mapping_evict:
  assumes "exclusive_mapping c" "evict_lru c = (Some v, c1)"
  shows "exclusive_mapping c1 \<and> v < length (slots c1) \<and> \<not> valid (slots c1 ! v) \<and>
         (\<forall>b. id_to_slot c b = None \<longrightarrow> id_to_slot c1 b = None)"
proof (cases c rule: evict_lru_cases)
  case (free i)
  with assms show ?thesis by simp
next
  case none
  with assms show ?thesis by simp
next
  case (lru w)
  with assms have [simp]: "w = v" and c1: "c1 = c\<lparr>id_to_slot := (id_to_slot c)(block_id (slots c ! v) := None),
                                    slots := (slots c)[v := (slots c ! v)\<lparr>valid := False\<rparr>]\<rparr>"
    by auto
  from lru have v: "v < length (slots c)" by simp
  have "exclusive_mapping c1"
    unfolding exclusive_mapping_def
  proof (intro conjI allI impI)
    fix b i assume "id_to_slot c1 b = Some i"
    then have b: "b \<noteq> block_id (slots c ! v)" "id_to_slot c b = Some i"
      by (auto simp: c1 split: if_splits)
    with assms(1) have i: "i < length (slots c)" "valid (slots c ! i)" "block_id (slots c ! i) = b"
      by (auto simp: exclusive_mapping_def)
    with b have "i \<noteq> v" by auto
    with i show "i < length (slots c1)" "valid (slots c1 ! i)" "block_id (slots c1 ! i) = b"
      by (simp_all add: c1)
  next
    fix i assume "i < length (slots c1)" "valid (slots c1 ! i)"
    then have i: "i < length (slots c)" "i \<noteq> v" "valid (slots c ! i)"
      by (cases "i = v"; simp add: c1)+
    with assms(1) have m: "id_to_slot c (block_id (slots c ! i)) = Some i"
      by (simp add: exclusive_mapping_def)
    from assms(1) v lru(2) have "id_to_slot c (block_id (slots c ! v)) = Some v"
      by (simp add: exclusive_mapping_def)
    with m i have "block_id (slots c ! i) \<noteq> block_id (slots c ! v)" by auto
    with m i show "id_to_slot c1 (block_id (slots c1 ! i)) = Some i"
      by (simp add: c1)
  qed
  with v show ?thesis by (simp add: c1)
qed

lemma exclusive_mapping_install:
  assumes "exclusive_mapping c1" "v < length (slots c1)" "\<not> valid (slots c1 ! v)" "id_to_slot c1 b = None"
  shows "exclusive_mapping (c1\<lparr>slots := (slots c1)[v := s\<lparr>block_id := b, valid := True, last_access := t\<rparr>],
                               access_counter := t,
                               id_to_slot := (id_to_slot c1)(b \<mapsto> v)\<rparr>)"
  using assms
  by (auto simp: exclusive_mapping_def nth_list_update split: if_splits)

lemma exclusive_mapping_put_block:
  assumes "exclusive_mapping c"
  shows "exclusive_mapping (put_block b src len c)"
proof (cases "id_to_slot c b")
  case (Some i)
  with assms show ?thesis by (simp add: put_block_def)
next
  case None
  obtain r c1 where ev: "evict_lru c = (r, c1)" by (cases "evict_lru c")
  show ?thesis
  proof (cases r)
    case None
    with ev have "c1 = c" by (cases c rule: evict_lru_cases) auto
    with ev \<open>r = None\<close> \<open>id_to_slot c b = None\<close> assms show ?thesis
      by (simp add: put_block_def)
  next
    case (Some v)
    from exclusive_mapping_evict [OF assms ev [unfolded Some]] \<open>id_to_slot c b = None\<close>
    have "exclusive_mapping c1" "v < length (slots c1)" "\<not> valid (slots c1 ! v)" "id_to_slot c1 b = None"
      by simp_all
    from exclusive_mapping_install [OF this]
    show ?thesis
      using ev Some \<open>id_to_slot c b = None\<close> by (simp add: put_block_def Let_def)
  qed
qed

lemma exclusive_mapping_instance0: "exclusive_mapping instance0"
  by (simp add: exclusive_mapping_def instance0_def)

lemma exclusive_mapping_init:
  assumes "exclusive_mapping c"
  shows "exclusive_mapping (init capacity_mb c)"
proof (cases "slots c = []")
  case False
  with assms show ?thesis by (simp add: init_def Let_def)
next
  case True
  with assms have "id_to_slot c b = None" for b
    by (cases "id_to_slot c b") (auto simp: exclusive_mapping_def)
  with True show ?thesis
    by (simp add: init_def Let_def exclusive_mapping_def new_Slot_def)
qed

lemma exclusive_mapping_invalidate_block:
  assumes "exclusive_mapping c"
  shows "exclusive_mapping (invalidate_block b c)"
proof (cases "id_to_slot c b")
  case None
  with assms show ?thesis by (simp add: invalidate_block_def)
next
  case (Some v)
  with assms have v: "v < length (slots c)" "block_id (slots c ! v) = b"
    by (auto simp: exclusive_mapping_def)
  have "exclusive_mapping (c\<lparr>slots := (slots c)[v := (slots c ! v)\<lparr>valid := False\<rparr>],
                   id_to_slot := (id_to_slot c)(b := None)\<rparr>)"
    unfolding exclusive_mapping_def
  proof (intro conjI allI impI)
    fix b' i assume "id_to_slot (c\<lparr>slots := (slots c)[v := (slots c ! v)\<lparr>valid := False\<rparr>],
                   id_to_slot := (id_to_slot c)(b := None)\<rparr>) b' = Some i"
    then have b': "b' \<noteq> b" "id_to_slot c b' = Some i" by (auto split: if_splits)
    with assms have i: "i < length (slots c)" "valid (slots c ! i)" "block_id (slots c ! i) = b'"
      by (auto simp: exclusive_mapping_def)
    with b' v have "i \<noteq> v" by auto
    with i show "i < length (slots (c\<lparr>slots := (slots c)[v := (slots c ! v)\<lparr>valid := False\<rparr>],
                   id_to_slot := (id_to_slot c)(b := None)\<rparr>))"
      "valid (slots (c\<lparr>slots := (slots c)[v := (slots c ! v)\<lparr>valid := False\<rparr>],
                   id_to_slot := (id_to_slot c)(b := None)\<rparr>) ! i)"
      "block_id (slots (c\<lparr>slots := (slots c)[v := (slots c ! v)\<lparr>valid := False\<rparr>],
                   id_to_slot := (id_to_slot c)(b := None)\<rparr>) ! i) = b'"
      by simp_all
  next
    fix i assume "i < length (slots (c\<lparr>slots := (slots c)[v := (slots c ! v)\<lparr>valid := False\<rparr>],
                   id_to_slot := (id_to_slot c)(b := None)\<rparr>))"
      "valid (slots (c\<lparr>slots := (slots c)[v := (slots c ! v)\<lparr>valid := False\<rparr>],
                   id_to_slot := (id_to_slot c)(b := None)\<rparr>) ! i)"
    then have i: "i < length (slots c)" "i \<noteq> v" "valid (slots c ! i)"
      by (cases "i = v"; simp)+
    with assms have m: "id_to_slot c (block_id (slots c ! i)) = Some i"
      by (simp add: exclusive_mapping_def)
    with Some i have "block_id (slots c ! i) \<noteq> b" by auto
    with m i show "id_to_slot (c\<lparr>slots := (slots c)[v := (slots c ! v)\<lparr>valid := False\<rparr>],
                   id_to_slot := (id_to_slot c)(b := None)\<rparr>)
            (block_id (slots (c\<lparr>slots := (slots c)[v := (slots c ! v)\<lparr>valid := False\<rparr>],
                   id_to_slot := (id_to_slot c)(b := None)\<rparr>) ! i)) = Some i"
      by simp
  qed
  with Some show ?thesis by (simp add: invalidate_block_def)
qed

lemma touch_nth:
  "valid (slots (touch i c) ! j) = valid (slots c ! j)"
  "block_id (slots (touch i c) ! j) = block_id (slots c ! j)"
  "data (slots (touch i c) ! j) = data (slots c ! j)"
proof -
  have upd: "f (xs[i := g (xs ! i)] ! j) = f (xs ! j)" if "\<And>x. f (g x) = f x"
    for f :: "Slot \<Rightarrow> 'b" and g xs
  proof (cases "i < length xs")
    case True
    with that show ?thesis by (cases "j = i") simp_all
  next
    case False
    then have "xs[i := g (xs ! i)] = xs" by (simp add: not_less list_update_beyond)
    then show ?thesis by simp
  qed
  show "valid (slots (touch i c) ! j) = valid (slots c ! j)"
    "block_id (slots (touch i c) ! j) = block_id (slots c ! j)"
    "data (slots (touch i c) ! j) = data (slots c ! j)"
    by (simp_all add: touch_def Let_def upd)
qed

lemma touch_frame:
  "length (slots (touch i c)) = length (slots c)"
  "id_to_slot (touch i c) = id_to_slot c"
  "access_counter (touch i c) = access_counter c + 1"
  "capacity_slots (touch i c) = capacity_slots c"
  by (simp_all add: touch_def Let_def)

lemma exclusive_mapping_touch: "exclusive_mapping c \<Longrightarrow> exclusive_mapping (touch i c)"
  by (simp add: exclusive_mapping_def touch_nth touch_frame)

lemma exclusive_mapping_get_block_ptr:
  "exclusive_mapping c \<Longrightarrow> exclusive_mapping (snd (get_block_ptr b c))"
  by (simp add: get_block_ptr_def exclusive_mapping_touch split: option.splits)

lemma exclusive_mapping_read_loop:
  "exclusive_mapping c \<Longrightarrow>
   exclusive_mapping (snd (snd (snd (read_loop offset len out_buffer b copied out c))))"
proof (induction offset len out_buffer b copied out c rule: read_loop.induct)
  case (1 offset len out_buffer b copied out c)
  show ?case
  proof (cases "b \<le> (offset + len - 1) div BLOCK_SIZE")
    case False
    with "1.prems" show ?thesis by (subst read_loop.simps) simp
  next
    case le: True
    show ?thesis
    proof (cases "id_to_slot c b")
      case None
      with le "1.prems" show ?thesis by (subst read_loop.simps) simp
    next
      case (Some i)
      have "exclusive_mapping (touch i c)"
        using "1.prems" by (rule exclusive_mapping_touch)
      from "1.IH" [OF refl refl le Some refl refl refl refl refl refl this]
      show ?thesis using le Some by (subst read_loop.simps) (simp add: Let_def)
    qed
  qed
qed

lemma exclusive_mapping_read:
  "exclusive_mapping c \<Longrightarrow> exclusive_mapping (snd (snd (snd (read offset len out_buffer c))))"
  by (simp add: read_def exclusive_mapping_read_loop)

lemma exclusive_mapping_concurrent_puts:
  "exclusive_mapping c \<Longrightarrow> exclusive_mapping (concurrent_puts ps c)"
  unfolding concurrent_puts_def
  by (induction ps arbitrary: c) (auto simp: exclusive_mapping_put_block)

lemma exclusive_mapping_wait_for_block:
  "exclusive_mapping c \<Longrightarrow> exclusive_mapping (snd (wait_for_block b t ps c))"
  by (simp add: wait_for_block_def Let_def exclusive_mapping_concurrent_puts)

lemma exclusive_mapping_unique:
  assumes "exclusive_mapping c" "i < length (slots c)" "j < length (slots c)"
    "valid (slots c ! i)" "valid (slots c ! j)" "block_id (slots c ! i) = block_id (slots c ! j)"
  shows "i = j"
proof -
  from assms(1,2,4) have "Some i = id_to_slot c (block_id (slots c ! i))"
    by (simp add: exclusive_mapping_def)
  also have "\<dots> = id_to_slot c (block_id (slots c ! j))"
    by (simp only: assms(6))
  also from assms(1,3,5) have "\<dots> = Some j"
    by (simp add: exclusive_mapping_def)
  finally show ?thesis by simp
qed

subsection \<open>The example states, evaluated\<close>

lemma replicate_8: "replicate 8 x = [x, x, x, x, x, x, x, x]"
  by (simp add: eval_nat_numeral)

lemma cache8_eq:
  "cache8 = \<lparr>slots = replicate 8 new_Slot, id_to_slot = Map.empty, capacity_slots = 8, access_counter = 0\<rparr>"
  by (simp add: cache8_def init_def instance0_def BLOCK_SIZE_def)

lemma pad0: "min 0 BLOCK_SIZE = 0" "0 < BLOCK_SIZE" "data new_Slot = replicate (unat BLOCK_SIZE) 0"
  by (simp_all add: BLOCK_SIZE_def new_Slot_def)

lemma full8_eq:
  "full8 = \<lparr>slots = map (\<lambda>k. new_Slot \<lparr>block_id := 9 + k, valid := True, last_access := k\<rparr>) [1, 2, 3, 4, 5, 6, 7, 8],
            id_to_slot = [10 \<mapsto> 0, 11 \<mapsto> 1, 12 \<mapsto> 2, 13 \<mapsto> 3, 14 \<mapsto> 4, 15 \<mapsto> 5, 16 \<mapsto> 6, 17 \<mapsto> 7],
            capacity_slots = 8, access_counter = 8\<rparr>"
  unfolding full8_def cache8_eq replicate_8
  by (simp add: put_block_def evict_lru_def Let_def pad0 new_Slot_def numeral_2_eq_2 [symmetric])

subsection \<open>The cache operations\<close>

text \<open>
  C6. Every cache operation (init, put, invalidate, read, get\_ptr, wait\_for) preserves
  the exclusive-mapping invariant: each mapped block id indexes a valid slot carrying
  that id, and each valid slot is the one its block id is mapped to; hence no two
  valid slots carry the same block id. The invariant holds of the initial singleton.
\<close>

theorem exclusive_mapping_preserved:
  "exclusive_mapping instance0 \<and>
   (exclusive_mapping c \<longrightarrow>
      exclusive_mapping (init capacity_mb c) \<and>
      exclusive_mapping (put_block b src len c) \<and>
      exclusive_mapping (invalidate_block b c) \<and>
      exclusive_mapping (snd (snd (snd (read offset len out_buffer c)))) \<and>
      exclusive_mapping (snd (get_block_ptr b c)) \<and>
      exclusive_mapping (snd (wait_for_block b t ps c)) \<and>
      (\<forall>i j. i < length (slots c) \<and> j < length (slots c) \<and>
             valid (slots c ! i) \<and> valid (slots c ! j) \<and>
             block_id (slots c ! i) = block_id (slots c ! j) \<longrightarrow> i = j))"
  using exclusive_mapping_unique [of c]
  by (simp add: exclusive_mapping_instance0 exclusive_mapping_init exclusive_mapping_put_block
      exclusive_mapping_invalidate_block exclusive_mapping_read exclusive_mapping_get_block_ptr
      exclusive_mapping_wait_for_block)

lemma exclusive_mapping_full8: "exclusive_mapping full8"
  unfolding full8_def cache8_def
  by (simp add: exclusive_mapping_put_block exclusive_mapping_init exclusive_mapping_instance0)

theorem exclusive_mapping_preserved_witness:
  "exclusive_mapping full8 \<and> id_to_slot full8 12 = Some 2 \<and> valid (slots full8 ! 2) \<and>
   exclusive_mapping (init 64 full8) \<and>
   exclusive_mapping (put_block 99 None 0 full8) \<and>
   exclusive_mapping (invalidate_block 12 full8) \<and>
   exclusive_mapping (snd (snd (snd (read 1572864 16 True full8)))) \<and>
   exclusive_mapping (snd (get_block_ptr 12 full8)) \<and>
   exclusive_mapping (snd (wait_for_block 99 4 [(99, None, 0)] full8))"
  using exclusive_mapping_preserved [where c = full8 and capacity_mb = 64 and b = 99 and src = None
      and len = 0 and t = 4 and ps = "[(99, None, 0)]"]
    exclusive_mapping_preserved [where c = full8 and b = 12 and offset = 1572864 and len = 16
      and out_buffer = True]
    exclusive_mapping_full8
  by (simp add: full8_eq)

text \<open>
  C3. Eviction chooses an invalid slot whenever one exists, and leaves the cache as it
  is. When every slot is valid (and some stamp is below \<open>UINT64_MAX\<close>, the start
  value of the running minimum), it chooses a slot whose \<open>last_access\<close> is minimal
  among all slots, removes that slot's block id from the mapping and clears its
  validity; a following \<open>put_block\<close> of an unmapped id installs the new block in
  exactly that slot, and the evicted id stays unmapped.
\<close>

theorem evict_lru_victim:
  "((\<exists>s \<in> set (slots c). \<not> valid s) \<longrightarrow>
      (\<exists>i < length (slots c). evict_lru c = (Some i, c) \<and> \<not> valid (slots c ! i))) \<and>
   ((\<forall>s \<in> set (slots c). valid s) \<and> (\<exists>s \<in> set (slots c). last_access s \<noteq> UINT64_MAX) \<longrightarrow>
      (\<exists>v < length (slots c).
          fst (evict_lru c) = Some v \<and> valid (slots c ! v) \<and>
          (\<forall>s \<in> set (slots c). last_access (slots c ! v) \<le> last_access s) \<and>
          id_to_slot (snd (evict_lru c)) (block_id (slots c ! v)) = None \<and>
          \<not> valid (slots (snd (evict_lru c)) ! v) \<and>
          (exclusive_mapping c \<and> id_to_slot c b = None \<longrightarrow>
             id_to_slot (put_block b src len c) b = Some v \<and>
             id_to_slot (put_block b src len c) (block_id (slots c ! v)) = None)))"
proof (intro conjI impI)
  assume "\<exists>s \<in> set (slots c). \<not> valid s"
  then obtain i where "find_invalid (slots c) 0 = Some i"
    by (cases "find_invalid (slots c) 0") (auto simp: find_invalid_None)
  from evict_lru_invalid [OF this]
  show "\<exists>i < length (slots c). evict_lru c = (Some i, c) \<and> \<not> valid (slots c ! i)"
    by blast
next
  assume a: "(\<forall>s \<in> set (slots c). valid s) \<and> (\<exists>s \<in> set (slots c). last_access s \<noteq> UINT64_MAX)"
  then obtain v where v: "v < length (slots c)"
    and ev: "evict_lru c = (Some v, c\<lparr>id_to_slot := (id_to_slot c)(block_id (slots c ! v) := None),
                                    slots := (slots c)[v := (slots c ! v)\<lparr>valid := False\<rparr>]\<rparr>)"
    and least: "\<forall>s \<in> set (slots c). last_access (slots c ! v) \<le> last_access s"
    using evict_lru_full [of c] by blast
  from a v have val: "valid (slots c ! v)" by simp
  have "id_to_slot (put_block b src len c) b = Some v \<and>
        id_to_slot (put_block b src len c) (block_id (slots c ! v)) = None"
    if inv: "exclusive_mapping c" and nb: "id_to_slot c b = None"
  proof -
    from inv v val have "id_to_slot c (block_id (slots c ! v)) = Some v"
      by (simp add: exclusive_mapping_def)
    with nb have "block_id (slots c ! v) \<noteq> b" by auto
    with nb ev show ?thesis
      by (simp add: put_block_def Let_def)
  qed
  with v ev least val
  show "\<exists>v < length (slots c).
          fst (evict_lru c) = Some v \<and> valid (slots c ! v) \<and>
          (\<forall>s \<in> set (slots c). last_access (slots c ! v) \<le> last_access s) \<and>
          id_to_slot (snd (evict_lru c)) (block_id (slots c ! v)) = None \<and>
          \<not> valid (slots (snd (evict_lru c)) ! v) \<and>
          (exclusive_mapping c \<and> id_to_slot c b = None \<longrightarrow>
             id_to_slot (put_block b src len c) b = Some v \<and>
             id_to_slot (put_block b src len c) (block_id (slots c ! v)) = None)"
    by (intro exI [of _ v]) simp
qed

lemma cache8_free: "\<exists>s \<in> set (slots cache8). \<not> valid s"
  by (simp add: cache8_eq replicate_8 new_Slot_def)

lemma full8_full:
  "(\<forall>s \<in> set (slots full8). valid s) \<and> (\<exists>s \<in> set (slots full8). last_access s \<noteq> UINT64_MAX)"
  by (simp add: full8_eq new_Slot_def UINT64_MAX_def)

theorem evict_lru_victim_witness:
  "(\<exists>s \<in> set (slots cache8). \<not> valid s) \<and>
   (\<exists>i < length (slots cache8). evict_lru cache8 = (Some i, cache8) \<and> \<not> valid (slots cache8 ! i)) \<and>
   list_all valid (slots full8) \<and> (\<exists>s \<in> set (slots full8). last_access s \<noteq> UINT64_MAX) \<and>
   exclusive_mapping full8 \<and> id_to_slot full8 99 = None \<and>
   (\<exists>v < length (slots full8).
      fst (evict_lru full8) = Some v \<and> valid (slots full8 ! v) \<and>
      list_all (\<lambda>s. last_access (slots full8 ! v) \<le> last_access s) (slots full8) \<and>
      id_to_slot (snd (evict_lru full8)) (block_id (slots full8 ! v)) = None \<and>
      \<not> valid (slots (snd (evict_lru full8)) ! v) \<and>
      id_to_slot (put_block 99 None 0 full8) 99 = Some v \<and>
      id_to_slot (put_block 99 None 0 full8) (block_id (slots full8 ! v)) = None)"
proof -
  have "id_to_slot full8 99 = None"
    by (simp add: full8_eq)
  with evict_lru_victim [of cache8] evict_lru_victim [of full8 99 None 0]
    cache8_free full8_full exclusive_mapping_full8
  show ?thesis by (simp add: list_all_iff)
qed

text \<open>
  C10. \<open>cache_has_block\<close> is not read-only: for a mapped block it returns 1, stamps
  the block's slot with the incremented access counter and so changes the cache; for
  an unmapped block it returns 0 and the cache is unchanged. The witness shows the
  effect on eviction: in the full example cache the victim is slot 0 before the check
  of block 10 and slot 1 after it.
\<close>

theorem cache_has_block_stamps:
  "(\<forall>i. id_to_slot c b = Some i \<and> i < length (slots c) \<longrightarrow>
      fst (cache_has_block b c) = 1 \<and>
      last_access (slots (snd (cache_has_block b c)) ! i) = access_counter c + 1 \<and>
      access_counter (snd (cache_has_block b c)) = access_counter c + 1 \<and>
      snd (cache_has_block b c) \<noteq> c) \<and>
   (id_to_slot c b = None \<longrightarrow> cache_has_block b c = (0, c))"
proof -
  have present: "fst (cache_has_block b c) = 1 \<and>
      last_access (slots (snd (cache_has_block b c)) ! i) = access_counter c + 1 \<and>
      access_counter (snd (cache_has_block b c)) = access_counter c + 1 \<and>
      snd (cache_has_block b c) \<noteq> c"
    if "id_to_slot c b = Some i \<and> i < length (slots c)" for i
  proof -
    from that have eq: "cache_has_block b c = (1, touch i c)" and i: "i < length (slots c)"
      by (simp_all add: cache_has_block_def get_block_ptr_def)
    have "access_counter (touch i c) \<noteq> access_counter c"
      by (simp add: touch_frame)
    then have "touch i c \<noteq> c" by auto
    with eq i show ?thesis
      by (simp add: touch_frame) (simp add: touch_def Let_def)
  qed
  have absent: "cache_has_block b c = (0, c)" if "id_to_slot c b = None"
    using that by (simp add: cache_has_block_def get_block_ptr_def)
  from present absent show ?thesis by blast
qed

lemma full8_victim: "fst (evict_lru full8) = Some 0"
  by (simp add: full8_eq evict_lru_def new_Slot_def UINT64_MAX_def)

lemma full8_has: "cache_has_block 10 full8 = (1, touch 0 full8)"
  by (simp add: cache_has_block_def get_block_ptr_def full8_eq)

lemma full8_victim_after_check: "fst (evict_lru (snd (cache_has_block 10 full8))) = Some 1"
  by (simp add: full8_has) (simp add: full8_eq touch_def evict_lru_def new_Slot_def UINT64_MAX_def)

theorem cache_has_block_stamps_witness:
  "id_to_slot full8 10 = Some 0 \<and> 0 < length (slots full8) \<and>
   last_access (slots full8 ! 0) = 1 \<and>
   fst (cache_has_block 10 full8) = 1 \<and>
   last_access (slots (snd (cache_has_block 10 full8)) ! 0) = 9 \<and>
   fst (evict_lru full8) = Some 0 \<and>
   fst (evict_lru (snd (cache_has_block 10 full8))) = Some 1 \<and>
   id_to_slot full8 99 = None \<and> cache_has_block 99 full8 = (0, full8)"
proof -
  have "id_to_slot full8 10 = Some 0 \<and> 0 < length (slots full8) \<and> id_to_slot full8 99 = None \<and>
        access_counter full8 = 8 \<and> last_access (slots full8 ! 0) = 1"
    by (simp add: full8_eq new_Slot_def)
  with cache_has_block_stamps [of full8 10] cache_has_block_stamps [of full8 99]
    full8_victim full8_victim_after_check
  show ?thesis by simp
qed

text \<open>
  C4. \<open>put(b, d1, len1)\<close> followed by \<open>put(b, d2, len2)\<close> is the same as the first put
  alone, and a put of a mapped block id changes nothing. When \<open>b\<close> was unmapped,
  eviction yields slot \<open>v\<close> and the buffer \<open>d1\<close> holds at least
  \<open>min(len1, BLOCK_SIZE)\<close> bytes, then after both puts \<open>b\<close> is mapped to \<open>v\<close> and
  the payload of \<open>v\<close> is those bytes of \<open>d1\<close>, zero-filled to the block size.
\<close>

theorem put_block_keeps_first:
  "put_block b src2 len2 (put_block b src1 len1 c) = put_block b src1 len1 c \<and>
   (id_to_slot c b \<noteq> None \<longrightarrow> put_block b src2 len2 c = c) \<and>
   (\<forall>v c1 bytes.
      id_to_slot c b = None \<and> evict_lru c = (Some v, c1) \<and> src1 = Some bytes \<and>
      unat (min len1 BLOCK_SIZE) \<le> length bytes \<and> length (data (slots c ! v)) = unat BLOCK_SIZE \<longrightarrow>
      id_to_slot (put_block b src2 len2 (put_block b src1 len1 c)) b = Some v \<and>
      data (slots (put_block b src2 len2 (put_block b src1 len1 c)) ! v) =
        take (unat (min len1 BLOCK_SIZE)) bytes @
        replicate (unat BLOCK_SIZE - unat (min len1 BLOCK_SIZE)) 0)"
proof -
  have absorb: "put_block b src2 len2 (put_block b src1 len1 c) = put_block b src1 len1 c"
  proof (cases "id_to_slot c b")
    case (Some i)
    then show ?thesis by (simp add: put_block_def)
  next
    case None
    show ?thesis
    proof (cases c rule: evict_lru_cases)
      case none
      with None show ?thesis by (simp add: put_block_def)
    next
      case (free i)
      with None have "id_to_slot (put_block b src1 len1 c) b = Some i"
        by (simp add: put_block_def Let_def)
      then show ?thesis by (simp add: put_block_def [of b src2])
    next
      case (lru v)
      with None have "id_to_slot (put_block b src1 len1 c) b = Some v"
        by (simp add: put_block_def Let_def)
      then show ?thesis by (simp add: put_block_def [of b src2])
    qed
  qed
  have skip: "put_block b src2 len2 c = c" if "id_to_slot c b \<noteq> None"
    using that by (simp add: put_block_def)
  have first: "id_to_slot (put_block b src2 len2 (put_block b src1 len1 c)) b = Some v \<and>
      data (slots (put_block b src2 len2 (put_block b src1 len1 c)) ! v) =
        take (unat (min len1 BLOCK_SIZE)) bytes @
        replicate (unat BLOCK_SIZE - unat (min len1 BLOCK_SIZE)) 0"
    if a: "id_to_slot c b = None \<and> evict_lru c = (Some v, c1) \<and> src1 = Some bytes \<and>
      unat (min len1 BLOCK_SIZE) \<le> length bytes \<and> length (data (slots c ! v)) = unat BLOCK_SIZE"
    for v c1 bytes
  proof -
  have v: "v < length (slots c1) \<and> data (slots c1 ! v) = data (slots c ! v)"
    using a by (cases c rule: evict_lru_cases) auto
  have le: "unat (min len1 BLOCK_SIZE) \<le> unat BLOCK_SIZE"
    by (simp add: word_le_nat_alt [symmetric])
  have "\<not> min len1 BLOCK_SIZE < BLOCK_SIZE \<Longrightarrow> unat (min len1 BLOCK_SIZE) = unat BLOCK_SIZE"
    using le by (simp add: word_less_nat_alt)
  moreover have "unat (BLOCK_SIZE - min len1 BLOCK_SIZE) = unat BLOCK_SIZE - unat (min len1 BLOCK_SIZE)"
    by (rule unat_sub) simp
  ultimately show ?thesis
    unfolding absorb using a v
    by (simp add: put_block_def Let_def memcpy_def)
  qed
  from absorb skip first show ?thesis by blast
qed

lemma cache8_evict: "evict_lru cache8 = (Some 0, cache8)"
  by (simp add: cache8_eq replicate_8 evict_lru_def new_Slot_def)

theorem put_block_keeps_first_witness:
  "id_to_slot cache8 7 = None \<and> evict_lru cache8 = (Some 0, cache8) \<and>
   unat (min 3 BLOCK_SIZE) \<le> length [1, 2, 3 :: u8] \<and>
   length (data (slots cache8 ! 0)) = unat BLOCK_SIZE \<and>
   id_to_slot (put_block 7 (Some [9, 9, 9, 9]) 4 (put_block 7 (Some [1, 2, 3]) 3 cache8)) 7 = Some 0 \<and>
   data (slots (put_block 7 (Some [9, 9, 9, 9]) 4 (put_block 7 (Some [1, 2, 3]) 3 cache8)) ! 0) =
     [1, 2, 3] @ replicate 131069 0 \<and>
   put_block 7 (Some [9, 9, 9, 9]) 4 (put_block 7 (Some [1, 2, 3]) 3 cache8) =
     put_block 7 (Some [1, 2, 3]) 3 cache8"
proof -
  have "id_to_slot cache8 7 = None \<and> unat (min 3 BLOCK_SIZE) = 3 \<and> unat BLOCK_SIZE = 131072 \<and>
        length (data (slots cache8 ! 0)) = unat BLOCK_SIZE"
    by (simp add: cache8_eq replicate_8 new_Slot_def BLOCK_SIZE_def)
  moreover note th = put_block_keeps_first [of 7 "Some [9, 9, 9, 9]" 4 "Some [1, 2, 3]" 3 cache8]
  moreover note th [THEN conjunct1] th [THEN conjunct2, THEN conjunct2, rule_format, of 0 cache8 "[1, 2, 3]"]
  ultimately show ?thesis
    using cache8_evict by (simp del: replicate_Suc)
qed

lemma init_default: "init 0 instance0 =
    instance0\<lparr>slots := replicate 512 new_Slot, capacity_slots := 512\<rparr>"
  by (simp add: init_def instance0_def BLOCK_SIZE_def)

lemma init_idempotent: "slots c \<noteq> [] \<Longrightarrow> init capacity_mb c = c"
  by (simp add: init_def Let_def)

text \<open>
  C8. \<open>cache_init(0)\<close> on the fresh singleton allocates the default of 512 slots.
  \<open>cache_init(-1)\<close> does not: the \<open>int\<close> becomes the \<open>size_t\<close> value
  \<open>2^64 - 1\<close>, the test \<open>capacity_mb <= 0\<close> fails, and the slot count is
  \<open>((2^64 - 1) * 2^20 mod 2^64) div 2^17 = 2^47 - 8\<close>.
\<close>

theorem cache_init_negative:
  "cache_init 0 instance0 = instance0\<lparr>slots := replicate 512 new_Slot, capacity_slots := 512\<rparr> \<and>
   cache_init (- 1) instance0 =
     instance0\<lparr>slots := replicate 140737488355320 new_Slot, capacity_slots := 140737488355320\<rparr> \<and>
   length (slots (cache_init (- 1) instance0)) \<noteq> 512"
  by (simp add: cache_init_def init_def instance0_def BLOCK_SIZE_def)

subsection \<open>The read and write paths\<close>

lemma to_int_small [simp]: "to_int 0 = 0" "to_int 1 = 1"
  by (simp_all add: to_int_def)

lemma read_first_absent:
  assumes "id_to_slot c (offset div BLOCK_SIZE) = None"
  shows "\<exists>r a. read offset len out_buffer c = (r, [], a, c) \<and> r \<le> 0"
proof (cases "id_to_slot c = Map.empty")
  case True
  then show ?thesis by (simp add: read_def)
next
  case False
  with assms show ?thesis
    by (simp add: read_def) (subst read_loop.simps, simp)
qed

lemma backfill_timeout:
  "g_adaptive_timeout_ms (backfill current_pos sync_res bytes b st) = g_adaptive_timeout_ms st"
proof (induction current_pos sync_res bytes b st rule: backfill.induct)
  case (1 current_pos sync_res bytes b st)
  show ?case
  proof (cases "b \<le> (current_pos + word_of_int sync_res - 1) div BLOCK_SIZE")
    case False
    then show ?thesis by (subst backfill.simps) simp
  next
    case True
    note IH = "1.IH" [OF refl refl True refl refl refl]
    show ?thesis
      using True IH by (subst backfill.simps) (simp add: Let_def prefetch_def)
  qed
qed

lemma cache_loop_first_miss_timeout:
  assumes "0 < len" "id_to_slot (cache st) (file_offset file div BLOCK_SIZE) = None"
    "id_to_slot (concurrent_puts (arrivals ev) (cache st)) (file_offset file div BLOCK_SIZE) = None"
  shows "cache_loop (ev # sched) file len 0 [] st =
           Some (0, [], st\<lparr>cache := concurrent_puts (arrivals ev) (cache st)\<rparr>)"
proof -
  from read_first_absent [OF assms(2), of len True] obtain r a where
    "read (file_offset file) len True (cache st) = (r, [], a, cache st)" "r \<le> 0"
    by blast
  with assms show ?thesis
    by (subst cache_loop.simps) (simp add: wait_for_block_def Let_def)
qed

lemma first_block_timeout_keeps_timeout:
  assumes "0 < len" "id_to_slot (cache st) (file_offset file div BLOCK_SIZE) = None"
    "id_to_slot (concurrent_puts (arrivals ev) (cache st)) (file_offset file div BLOCK_SIZE) = None"
  shows "\<exists>r bytes f st'.
           retro_vfs_read (ev # sched) nfs_pread (Some file) True len st = Some (r, bytes, f, st') \<and>
           g_adaptive_timeout_ms st' = g_adaptive_timeout_ms st"
proof -
  let ?st0 = "if g_prefetch_callback st
              then prefetch (file_offset file div BLOCK_SIZE + 2)
                     (prefetch (file_offset file div BLOCK_SIZE + 1)
                       (prefetch (file_offset file div BLOCK_SIZE) st))
              else st"
  have c0: "cache ?st0 = cache st" and t0: "g_adaptive_timeout_ms ?st0 = g_adaptive_timeout_ms st"
    by (simp_all add: prefetch_def)
  from assms have "cache_loop (ev # sched) file len 0 [] ?st0 =
           Some (0, [], ?st0\<lparr>cache := concurrent_puts (arrivals ev) (cache ?st0)\<rparr>)"
    by (intro cache_loop_first_miss_timeout) (simp_all only: c0)
  with assms(1) t0 show ?thesis
    by (cases "nfs_pread len (file_offset file)")
       (auto simp: retro_vfs_read_def Let_def backfill_timeout)
qed

text \<open>
  C9. With \<open>T_ms = 4\<close> and the first block of the request missing, the wait on that
  block times out and the read falls back to the transport; \<open>T_ms\<close> is still 4
  afterwards, not 6. The branch for a missing first block does not adjust the timeout;
  the branch after a partial hit does (\<open>slow_read_eq\<close>).
\<close>

theorem first_block_timeout_not_adapted:
  "g_adaptive_timeout_ms st_cold = 4 \<and>
   wait_for_block 0 4 (arrivals timed_out) (cache st_cold) = (False, cache st_cold) \<and>
   retro_vfs_read [timed_out] failing_pread (Some file0) True 16 st_cold =
     Some (- 1, [], Some file0, st_cold) \<and>
   g_adaptive_timeout_ms (after_read [timed_out] file0 16 st_cold) = 4"
proof -
  have absent: "id_to_slot (cache st_cold) (file_offset file0 div BLOCK_SIZE) = None"
    by (simp add: st_cold_def cache8_eq)
  then have "cache_loop [timed_out] file0 16 0 [] st_cold = Some (0, [], st_cold)"
    by (subst cache_loop_first_miss_timeout) (simp_all add: timed_out_def concurrent_puts_def)
  then have "retro_vfs_read [timed_out] failing_pread (Some file0) True 16 st_cold =
     Some (- 1, [], Some file0, st_cold)"
    by (simp add: retro_vfs_read_def Let_def failing_pread_def) (simp add: st_cold_def)
  then show ?thesis
    using absent
    by (simp add: after_read_def wait_for_block_def timed_out_def concurrent_puts_def)
       (simp add: st_cold_def file0_def BLOCK_SIZE_def)
qed

lemma two_le_one [simp]: "\<not> (2 :: u64) \<le> 1"
  by (simp add: word_le_nat_alt)

lemma read_file_b:
  assumes "id_to_slot c 18 = Some i" "id_to_slot c 19 = None"
  shows "read 2490367 2 True c = (1, take 1 (drop 131071 (data (slots c ! i))), Some 1, touch i c)"
proof -
  from assms(1) have "id_to_slot c \<noteq> Map.empty" by auto
  moreover have "id_to_slot (touch i c) 19 = None"
    using assms(2) by (simp add: touch_frame)
  ultimately show ?thesis
    using assms(1)
    by (simp add: read_def)
       (subst read_loop.simps, simp add: BLOCK_SIZE_def Let_def,
        subst read_loop.simps, simp add: BLOCK_SIZE_def Let_def)
qed

lemma slow_read_eq:
  assumes "id_to_slot (cache st) 18 = Some i" "id_to_slot (cache st) 19 = None" "\<not> g_prefetch_callback st"
  shows "retro_vfs_read [timed_out] failing_pread (Some file_b) True 2 st =
           Some (1, take 1 (drop 131071 (data (slots (cache st) ! i))),
                 Some (file_b\<lparr>file_offset := 2490368\<rparr>),
                 st\<lparr>cache := touch i (cache st),
                    g_adaptive_timeout_ms :=
                      (if g_adaptive_timeout_ms st < 20 then g_adaptive_timeout_ms st + 2
                       else g_adaptive_timeout_ms st)\<rparr>)"
proof -
  have "id_to_slot (touch i (cache st)) 19 = None"
    using assms(2) by (simp add: touch_frame)
  then have "cache_loop [timed_out] file_b 2 0 [] st =
      Some (1, take 1 (drop 131071 (data (slots (cache st) ! i))),
            st\<lparr>cache := touch i (cache st),
               g_adaptive_timeout_ms :=
                 (if g_adaptive_timeout_ms st < 20 then g_adaptive_timeout_ms st + 2
                  else g_adaptive_timeout_ms st)\<rparr>)"
    using read_file_b [OF assms(1,2)]
    by (subst cache_loop.simps)
       (simp add: file_b_def Let_def BLOCK_SIZE_def wait_for_block_def timed_out_def concurrent_puts_def)
  with assms(3) show ?thesis
    by (simp add: retro_vfs_read_def Let_def failing_pread_def) (simp add: file_b_def)
qed

lemma slow_read_step:
  assumes "id_to_slot (cache st) 18 \<noteq> None" "id_to_slot (cache st) 19 = None" "\<not> g_prefetch_callback st"
  shows "id_to_slot (cache (slow_read st)) 18 \<noteq> None"
    "id_to_slot (cache (slow_read st)) 19 = None"
    "\<not> g_prefetch_callback (slow_read st)"
    "g_adaptive_timeout_ms (slow_read st) =
       (if g_adaptive_timeout_ms st < 20 then g_adaptive_timeout_ms st + 2 else g_adaptive_timeout_ms st)"
proof -
  from assms(1) obtain i where i: "id_to_slot (cache st) 18 = Some i" by auto
  note eq = slow_read_eq [OF i assms(2,3)]
  show "id_to_slot (cache (slow_read st)) 18 \<noteq> None"
    "id_to_slot (cache (slow_read st)) 19 = None"
    "\<not> g_prefetch_callback (slow_read st)"
    "g_adaptive_timeout_ms (slow_read st) =
       (if g_adaptive_timeout_ms st < 20 then g_adaptive_timeout_ms st + 2 else g_adaptive_timeout_ms st)"
    using i assms(2,3) by (simp_all add: slow_read_def after_read_def eq touch_frame)
qed

lemma read_file_a:
  assumes "id_to_slot c 17 = Some i" "id_to_slot c 18 = None"
  shows "read 2359295 2 True c = (1, take 1 (drop 131071 (data (slots c ! i))), Some 1, touch i c)"
proof -
  from assms(1) have "id_to_slot c \<noteq> Map.empty" by auto
  moreover have "id_to_slot (touch i c) 18 = None"
    using assms(2) by (simp add: touch_frame)
  ultimately show ?thesis
    using assms(1)
    by (simp add: read_def)
       (subst read_loop.simps, simp add: BLOCK_SIZE_def Let_def,
        subst read_loop.simps, simp add: BLOCK_SIZE_def Let_def)
qed

lemma read_block_18:
  assumes "id_to_slot c 18 = Some i"
  shows "read 2359296 1 True c = (1, take 1 (data (slots c ! i)), Some 1, touch i c)"
proof -
  from assms(1) have "id_to_slot c \<noteq> Map.empty" by auto
  then show ?thesis
    using assms(1)
    by (simp add: read_def)
       (subst read_loop.simps, simp add: BLOCK_SIZE_def Let_def,
        subst read_loop.simps, simp add: BLOCK_SIZE_def Let_def)
qed

lemma arrival_18:
  "id_to_slot (concurrent_puts (arrivals arrives_fast) (touch 7 full8)) 18 = Some 0"
  "id_to_slot (concurrent_puts (arrivals arrives_fast) (touch 7 full8)) 19 = None"
  by (simp_all add: arrives_fast_def concurrent_puts_def full8_eq touch_def put_block_def
      evict_lru_def new_Slot_def UINT64_MAX_def Let_def)

lemma fast_read_eq:
  "retro_vfs_read [arrives_fast] failing_pread (Some file_a) True 2 st_warm =
     Some (2, take 1 (drop 131071 (data (slots full8 ! 7))) @
              take 1 (data (slots (concurrent_puts (arrivals arrives_fast) (touch 7 full8)) ! 0)),
           Some (file_a\<lparr>file_offset := 2359297\<rparr>),
           st_warm\<lparr>cache := touch 0 (concurrent_puts (arrivals arrives_fast) (touch 7 full8)),
                   g_adaptive_timeout_ms := 3\<rparr>)"
proof -
  have m: "id_to_slot full8 17 = Some 7" "id_to_slot full8 18 = None"
    by (simp_all add: full8_eq)
  have w: "wait_for_block 18 4 (arrivals arrives_fast) (touch 7 full8) =
             (True, concurrent_puts (arrivals arrives_fast) (touch 7 full8))"
    using m(2) by (simp add: wait_for_block_def Let_def touch_frame arrival_18)
  have ms: "wait_ms arrives_fast = 0"
    by (simp add: arrives_fast_def)
  have "cache_loop [arrives_fast] file_a 2 0 [] st_warm =
     Some (2, take 1 (drop 131071 (data (slots full8 ! 7))) @
              take 1 (data (slots (concurrent_puts (arrivals arrives_fast) (touch 7 full8)) ! 0)),
           st_warm\<lparr>cache := touch 0 (concurrent_puts (arrivals arrives_fast) (touch 7 full8)),
                   g_adaptive_timeout_ms := 3\<rparr>)"
    by (subst cache_loop.simps,
        simp add: st_warm_def file_a_def read_file_a [OF m] Let_def BLOCK_SIZE_def w ms,
        subst cache_loop.simps,
        simp add: read_block_18 [OF arrival_18(1)] Let_def)
  then show ?thesis
    by (simp add: retro_vfs_read_def Let_def st_warm_def) (simp add: file_a_def)
qed

text \<open>
  C2. Starting from \<open>T_ms = 4\<close>, one read whose wait succeeds within 0 ms brings
  \<open>T_ms\<close> to 3, and nine further reads, each a partial hit whose wait times out, bring
  it to 21: the guard \<open>T_ms < 20\<close> lets 19 grow by 2.
\<close>

theorem adaptive_timeout_reaches_21:
  "g_adaptive_timeout_ms st_warm = 4 \<and>
   g_adaptive_timeout_ms (after_read [arrives_fast] file_a 2 st_warm) = 3 \<and>
   g_adaptive_timeout_ms
     (slow_read (slow_read (slow_read (slow_read (slow_read (slow_read (slow_read (slow_read
       (slow_read (after_read [arrives_fast] file_a 2 st_warm)))))))))) = 21"
proof -
  let ?s = "after_read [arrives_fast] file_a 2 st_warm"
  have s: "id_to_slot (cache ?s) 18 \<noteq> None" "id_to_slot (cache ?s) 19 = None"
    "\<not> g_prefetch_callback ?s" "g_adaptive_timeout_ms ?s = 3"
    by (simp_all add: after_read_def fast_read_eq touch_frame arrival_18) (simp_all add: st_warm_def)
  note s1 = slow_read_step [OF s(1-3)]
  note s2 = slow_read_step [OF s1(1-3)]
  note s3 = slow_read_step [OF s2(1-3)]
  note s4 = slow_read_step [OF s3(1-3)]
  note s5 = slow_read_step [OF s4(1-3)]
  note s6 = slow_read_step [OF s5(1-3)]
  note s7 = slow_read_step [OF s6(1-3)]
  note s8 = slow_read_step [OF s7(1-3)]
  note s9 = slow_read_step [OF s8(1-3)]
  show ?thesis
    by (simp add: s(4) s1(4) s2(4) s3(4) s4(4) s5(4) s6(4) s7(4) s8(4) s9(4)) (simp add: st_warm_def)
qed

text \<open>
  C7, amended. A read of length 0 on an open handle returns \<open>-1\<close>, not 0: the loop and
  the fallback are skipped and \<open>total_read\<close> stays 0. It delivers no bytes and leaves
  the handle and the whole process-wide state as they are, the cache and the adaptive
  timeout included, with one exception: when the buffer is non-null and a callback is
  registered, the three prefetch hints for the blocks \<open>offset div B\<close>,
  \<open>offset div B + 1\<close> and \<open>offset div B + 2\<close> are appended to the hints
  emitted so far, in this order.
\<close>

theorem retro_vfs_read_zero_length:
  "retro_vfs_read sched nfs_pread (Some file) s 0 st =
     Some (- 1, [], Some file,
           if s \<and> g_prefetch_callback st
           then st\<lparr>hints := hints st @
                  [file_offset file div BLOCK_SIZE,
                   file_offset file div BLOCK_SIZE + 1,
                   file_offset file div BLOCK_SIZE + 2]\<rparr>
           else st)"
proof (cases s)
  case True
  then show ?thesis
    by (simp add: retro_vfs_read_def cache_loop.simps Let_def prefetch_def)
next
  case False
  then show ?thesis
    by (simp add: retro_vfs_read_def)
qed

theorem retro_vfs_read_zero_length_counterexample:
  "retro_vfs_read [] failing_pread (Some file0) True 0 st8 =
     Some (- 1, [], Some file0, st8\<lparr>hints := [0, 1, 2]\<rparr>) \<and>
   fst (the (retro_vfs_read [] failing_pread (Some file0) True 0 st8)) \<noteq> 0"
  by (simp add: retro_vfs_read_def cache_loop.simps Let_def prefetch_def st8_def file0_def BLOCK_SIZE_def)

lemma unat_BLOCK_SIZE: "unat BLOCK_SIZE = 131072"
  by (simp add: BLOCK_SIZE_def)

lemma unat_block_of: "unat (x div BLOCK_SIZE) = unat x div 131072"
  by (simp add: unat_div unat_BLOCK_SIZE)

lemma invalidate_block_absent:
  "id_to_slot (invalidate_block b c) b = None"
  "id_to_slot c x = None \<Longrightarrow> id_to_slot (invalidate_block b c) x = None"
  by (simp_all add: invalidate_block_def split: option.splits)

lemma invalidate_range_keeps_absent:
  "id_to_slot c x = None \<Longrightarrow> id_to_slot (invalidate_range offset res b c) x = None"
proof (induction offset res b c rule: invalidate_range.induct)
  case (1 offset res b c)
  show ?case
  proof (cases "b \<le> (offset + word_of_int res - 1) div BLOCK_SIZE")
    case False
    with "1.prems" show ?thesis by (subst invalidate_range.simps) simp
  next
    case True
    from "1.IH" [OF refl True] "1.prems" show ?thesis
      using True by (subst invalidate_range.simps) (simp add: invalidate_block_absent)
  qed
qed

lemma invalidate_range_absent:
  "b \<le> x \<Longrightarrow> x \<le> (offset + word_of_int res - 1) div BLOCK_SIZE \<Longrightarrow>
   id_to_slot (invalidate_range offset res b c) x = None"
proof (induction offset res b c rule: invalidate_range.induct)
  case (1 offset res b c)
  from "1.prems" have le: "b \<le> (offset + word_of_int res - 1) div BLOCK_SIZE"
    by simp
  show ?case
  proof (cases "x = b")
    case True
    have "id_to_slot (invalidate_range offset res (b + 1) (invalidate_block b c)) b = None"
      by (rule invalidate_range_keeps_absent) (simp add: invalidate_block_absent)
    with True le show ?thesis by (subst invalidate_range.simps) simp
  next
    case False
    with "1.prems" have "b < x" by simp
    then have "b + 1 \<le> x" by (simp add: inc_le)
    from "1.IH" [OF refl le this "1.prems"(2)] le show ?thesis
      by (subst invalidate_range.simps) simp
  qed
qed

lemma unat_range_end:
  assumes "0 < n" "unat (offset :: u64) + nat n \<le> 2 ^ 64"
  shows "unat (offset + word_of_int n - 1) = unat offset + nat n - 1"
proof -
  obtain k where k: "nat n = Suc k"
    using assms(1) by (cases "nat n") auto
  have "0 \<le> n" using assms(1) by simp
  from word_of_int_nat [OF this] k have "word_of_int n = (word_of_nat (Suc k) :: u64)"
    by (simp only:)
  then have "word_of_nat (unat offset + k) = offset + word_of_int n - 1"
    by simp
  moreover have "unat offset + k < 2 ^ LENGTH(64)"
    using assms(2) k by simp
  ultimately have "unat (offset + word_of_int n - 1) = unat offset + k"
    by (rule of_nat_inverse)
  with k show ?thesis by simp
qed

text \<open>
  C5, amended. When the transport reports \<open>n > 0\<close> bytes at offset \<open>o\<close> and
  \<open>o + n < 2^64\<close>, the write returns \<open>n\<close>, advances the file offset to \<open>o + n\<close>, and
  every block whose span \<open>[x * B, (x + 1) * B)\<close> meets \<open>[o, o + n)\<close> is unmapped
  afterwards. When the transport reports zero or a negative count, handle and state
  are unchanged. Without the bound the block range is computed modulo \<open>2^64\<close>: the
  counterexample writes 2 bytes at offset \<open>2^64 - 1\<close> and block \<open>2^47 - 1\<close> stays
  mapped.
\<close>

theorem retro_vfs_write_invalidates:
  "(0 < nfs_pwrite len (file_offset file) \<and>
    unat (file_offset file) + nat (nfs_pwrite len (file_offset file)) < 2 ^ 64 \<longrightarrow>
      fst (retro_vfs_write nfs_pwrite (Some file) len st) = nfs_pwrite len (file_offset file) \<and>
      (\<exists>file'. fst (snd (retro_vfs_write nfs_pwrite (Some file) len st)) = Some file' \<and>
         unat (file_offset file') = unat (file_offset file) + nat (nfs_pwrite len (file_offset file))) \<and>
      (\<forall>x. unat x * 131072 < unat (file_offset file) + nat (nfs_pwrite len (file_offset file)) \<and>
           unat (file_offset file) < (unat x + 1) * 131072 \<longrightarrow>
           id_to_slot (cache (snd (snd (retro_vfs_write nfs_pwrite (Some file) len st)))) x = None)) \<and>
   (nfs_pwrite len (file_offset file) \<le> 0 \<longrightarrow>
      retro_vfs_write nfs_pwrite (Some file) len st = (nfs_pwrite len (file_offset file), Some file, st))"
proof -
  let ?n = "nfs_pwrite len (file_offset file)"
  let ?o = "file_offset file"
  have fail: "retro_vfs_write nfs_pwrite (Some file) len st = (?n, Some file, st)" if "?n \<le> 0"
    using that by (simp add: retro_vfs_write_def Let_def)
  have ok: "fst (retro_vfs_write nfs_pwrite (Some file) len st) = ?n \<and>
      (\<exists>file'. fst (snd (retro_vfs_write nfs_pwrite (Some file) len st)) = Some file' \<and>
         unat (file_offset file') = unat ?o + nat ?n) \<and>
      (\<forall>x. unat x * 131072 < unat ?o + nat ?n \<and> unat ?o < (unat x + 1) * 131072 \<longrightarrow>
           id_to_slot (cache (snd (snd (retro_vfs_write nfs_pwrite (Some file) len st)))) x = None)"
    if pos: "0 < ?n" and fit: "unat ?o + nat ?n < 2 ^ 64"
  proof -
    have eq: "retro_vfs_write nfs_pwrite (Some file) len st =
        (?n, Some (file\<lparr>file_offset := ?o + word_of_int ?n\<rparr>),
         st\<lparr>cache := invalidate_range ?o ?n (?o div BLOCK_SIZE) (cache st)\<rparr>)"
      using pos by (simp add: retro_vfs_write_def Let_def)
    from fit have le: "unat ?o + nat ?n \<le> 2 ^ 64" by simp
    have e: "unat (?o + word_of_int ?n - 1) = unat ?o + nat ?n - 1"
      using pos le by (rule unat_range_end)
    have "0 \<le> ?n" using pos by simp
    from word_of_int_nat [OF this, symmetric]
    have a: "(word_of_nat (nat ?n) :: u64) = word_of_int ?n" .
    have "word_of_nat (unat ?o + nat ?n) = ?o + word_of_nat (nat ?n)"
      by simp
    then have "word_of_nat (unat ?o + nat ?n) = ?o + word_of_int ?n"
      by (simp only: a)
    moreover have "unat ?o + nat ?n < 2 ^ LENGTH(64)"
      using fit by simp
    ultimately have adv: "unat (?o + word_of_int ?n) = unat ?o + nat ?n"
      by (rule of_nat_inverse)
    have inv: "id_to_slot (invalidate_range ?o ?n (?o div BLOCK_SIZE) (cache st)) x = None"
      if x: "unat x * 131072 < unat ?o + nat ?n" "unat ?o < (unat x + 1) * 131072" for x
    proof (rule invalidate_range_absent)
      from x(2) have "unat ?o div 131072 \<le> unat x"
        by (simp add: less_mult_imp_div_less)
      then show "?o div BLOCK_SIZE \<le> x"
        by (simp add: word_le_nat_alt unat_block_of)
      from x(1) have "unat x * 131072 \<le> unat ?o + nat ?n - 1" by simp
      then have "unat x \<le> (unat ?o + nat ?n - 1) div 131072"
        by (simp add: less_eq_div_iff_mult_less_eq)
      then show "x \<le> (?o + word_of_int ?n - 1) div BLOCK_SIZE"
        by (simp add: word_le_nat_alt unat_block_of e)
    qed
    show ?thesis
      unfolding eq using adv inv by simp
  qed
  from ok fail show ?thesis by blast
qed

lemma st_written_blocks:
  "id_to_slot (cache st_written) 0 = Some 0" "id_to_slot (cache st_written) 1 = Some 1"
  by (simp_all add: st_written_def cache8_eq replicate_8 put_block_def evict_lru_def Let_def new_Slot_def)

theorem retro_vfs_write_invalidates_witness:
  "0 < pwrite_two 2 (file_offset file_w) \<and>
   unat (file_offset file_w) + nat (pwrite_two 2 (file_offset file_w)) < 2 ^ 64 \<and>
   id_to_slot (cache st_written) 0 = Some 0 \<and> id_to_slot (cache st_written) 1 = Some 1 \<and>
   fst (retro_vfs_write pwrite_two (Some file_w) 2 st_written) = 2 \<and>
   (\<exists>file'. fst (snd (retro_vfs_write pwrite_two (Some file_w) 2 st_written)) = Some file' \<and>
      unat (file_offset file') = 131073) \<and>
   id_to_slot (cache (snd (snd (retro_vfs_write pwrite_two (Some file_w) 2 st_written)))) 0 = None \<and>
   id_to_slot (cache (snd (snd (retro_vfs_write pwrite_two (Some file_w) 2 st_written)))) 1 = None \<and>
   pwrite_fail 2 (file_offset file_w) \<le> 0 \<and>
   retro_vfs_write pwrite_fail (Some file_w) 2 st_written = (- 1, Some file_w, st_written)"
proof -
  have h: "0 < pwrite_two 2 (file_offset file_w) \<and>
      unat (file_offset file_w) + nat (pwrite_two 2 (file_offset file_w)) < 2 ^ 64"
    "pwrite_two 2 (file_offset file_w) = 2" "unat (file_offset file_w) = 131071"
    "pwrite_fail 2 (file_offset file_w) = - 1"
    by (simp_all add: pwrite_two_def file_w_def pwrite_fail_def)
  note ok = retro_vfs_write_invalidates [of pwrite_two 2 file_w st_written, THEN conjunct1, rule_format, OF h(1)]
  note fail = retro_vfs_write_invalidates [of pwrite_fail 2 file_w st_written, THEN conjunct2, rule_format]
  from ok have "fst (retro_vfs_write pwrite_two (Some file_w) 2 st_written) = 2"
    "\<exists>file'. fst (snd (retro_vfs_write pwrite_two (Some file_w) 2 st_written)) = Some file' \<and>
      unat (file_offset file') = 131073"
    by (simp_all add: h)
  moreover from ok have
    "id_to_slot (cache (snd (snd (retro_vfs_write pwrite_two (Some file_w) 2 st_written)))) x = None"
    if "unat x * 131072 < 131073 \<and> 131071 < (unat x + 1) * 131072" for x
    using that by (simp add: h)
  from this [of 0] this [of 1] have
    "id_to_slot (cache (snd (snd (retro_vfs_write pwrite_two (Some file_w) 2 st_written)))) 0 = None"
    "id_to_slot (cache (snd (snd (retro_vfs_write pwrite_two (Some file_w) 2 st_written)))) 1 = None"
    by simp_all
  moreover from fail have "retro_vfs_write pwrite_fail (Some file_w) 2 st_written = (- 1, Some file_w, st_written)"
    by (simp add: h)
  ultimately show ?thesis
    using h st_written_blocks by simp
qed

lemma st_top_block: "id_to_slot (cache st_top) 140737488355327 = Some 0"
  by (simp add: st_top_def cache8_eq replicate_8 put_block_def evict_lru_def Let_def new_Slot_def)

theorem retro_vfs_write_wraps_counterexample:
  "0 < pwrite_two 2 (file_offset file_top) \<and>
   unat (140737488355327 :: u64) * 131072 < unat (file_offset file_top) + nat (pwrite_two 2 (file_offset file_top)) \<and>
   unat (file_offset file_top) < (unat (140737488355327 :: u64) + 1) * 131072 \<and>
   retro_vfs_write pwrite_two (Some file_top) 2 st_top = (2, Some (file_top\<lparr>file_offset := 1\<rparr>), st_top) \<and>
   id_to_slot (cache (snd (snd (retro_vfs_write pwrite_two (Some file_top) 2 st_top)))) 140737488355327 = Some 0"
proof -
  have "invalidate_range 18446744073709551615 2 140737488355327 (cache st_top) = cache st_top"
    by (subst invalidate_range.simps) (simp add: BLOCK_SIZE_def)
  then have "retro_vfs_write pwrite_two (Some file_top) 2 st_top = (2, Some (file_top\<lparr>file_offset := 1\<rparr>), st_top)"
    by (simp add: retro_vfs_write_def pwrite_two_def file_top_def Let_def BLOCK_SIZE_def)
  then show ?thesis
    by (simp add: st_top_block) (simp add: pwrite_two_def file_top_def)
qed

subsection \<open>The multi-block read against the specification\<close>

lemma spec_B_pos: "0 < spec_B"
  by (simp add: spec_B_def)

lemma copied_step:
  fixes off len b :: nat
  assumes "off div spec_B \<le> b" "copied = min len (b * spec_B - off)"
  shows "copied + min (spec_B - (if b = off div spec_B then off mod spec_B else 0)) (len - copied)
         = min len (Suc b * spec_B - off)"
proof (cases "b = off div spec_B")
  case True
  have "off = (off div spec_B) * spec_B + off mod spec_B" by simp
  with True have "off = b * spec_B + off mod spec_B" by simp
  moreover have "off mod spec_B < spec_B" using spec_B_pos by simp
  ultimately have "b * spec_B \<le> off" "Suc b * spec_B - off = spec_B - off mod spec_B"
    by simp_all
  with assms True show ?thesis by simp
next
  case False
  with assms(1) have "Suc (off div spec_B) \<le> b" by simp
  then have "Suc (off div spec_B) * spec_B \<le> b * spec_B"
    by (rule mult_le_mono1)
  moreover have "off < Suc (off div spec_B) * spec_B"
    using dividend_less_times_div [of spec_B off] spec_B_pos by (simp add: mult.commute)
  ultimately have lt: "off < b * spec_B" by simp
  define x where "x = b * spec_B"
  have "copied + min spec_B (len - copied) = min len (spec_B + x - off)"
    using lt assms(2) unfolding x_def [symmetric] by arith
  with False show ?thesis by (simp add: x_def)
qed

lemma off_below_next:
  fixes off b :: nat
  assumes "off div spec_B \<le> b"
  shows "off < Suc b * spec_B"
proof -
  from assms have "Suc (off div spec_B) \<le> Suc b" by simp
  then have le: "Suc (off div spec_B) * spec_B \<le> Suc b * spec_B"
    by (rule mult_le_mono1)
  have "off < Suc (off div spec_B) * spec_B"
    using dividend_less_times_div [of spec_B off] spec_B_pos by (simp add: mult.commute)
  then show ?thesis using le by (rule less_le_trans)
qed

lemma spec_read_blocks_result:
  assumes "off div spec_B \<le> b" "b \<le> Suc e" "copied = min len (b * spec_B - off)" "0 < len"
  shows "\<exists>b'. b \<le> b' \<and> b' \<le> Suc e \<and>
           (\<forall>x. b \<le> x \<and> x < b' \<longrightarrow> id_to_slot c (of_nat x) \<noteq> None) \<and>
           (b' \<le> e \<longrightarrow> id_to_slot c (of_nat b') = None) \<and>
           (case spec_read_blocks c off len [b ..< Suc e] copied out of
              None \<Rightarrow> b' = b \<and> copied = 0
            | Some (n, out') \<Rightarrow> n = min len (b' * spec_B - off) \<and> (b' = b \<longrightarrow> b = Suc e \<or> copied \<noteq> 0))"
  using assms
proof (induction "Suc e - b" arbitrary: b copied out)
  case 0
  then have "b = Suc e" by simp
  with "0.prems" show ?case
    by (intro exI [of _ "Suc e"]) auto
next
  case (Suc m)
  from Suc.hyps(2) have b: "b \<le> e" by simp
  then have "b < Suc e" by simp
  then have up: "[b ..< Suc e] = b # [Suc b ..< Suc e]"
    by (rule upt_conv_Cons)
  show ?case
  proof (cases "id_to_slot c (of_nat b)")
    case None
    then have "spec_read_blocks c off len [b ..< Suc e] copied out =
        (if copied = 0 then None else Some (copied, out))"
      unfolding up by simp
    with None b Suc.prems(3) show ?thesis
      by (intro exI [of _ b]) (auto simp del: upt_Suc)
  next
    case (Some i)
    let ?bo = "if b = off div spec_B then off mod spec_B else 0"
    let ?n = "min (spec_B - ?bo) (len - copied)"
    let ?out = "out @ take ?n (drop ?bo (data (slots c ! i)))"
    have step: "copied + ?n = min len (Suc b * spec_B - off)"
      using Suc.prems(1,3) by (rule copied_step)
    have pos: "copied + ?n \<noteq> 0"
      unfolding step using off_below_next [OF Suc.prems(1)] Suc.prems(4) by simp
    have unfold: "spec_read_blocks c off len [b ..< Suc e] copied out =
        spec_read_blocks c off len [Suc b ..< Suc e] (copied + ?n) ?out"
      unfolding up using Some by (simp add: Let_def del: upt_Suc)
    have m: "m = Suc e - Suc b" using Suc.hyps(2) by simp
    have le: "off div spec_B \<le> Suc b" "Suc b \<le> Suc e"
      using Suc.prems(1) b by simp_all
    from Suc.hyps(1) [OF m le step Suc.prems(4), of ?out]
    obtain b' where b': "Suc b \<le> b'" "b' \<le> Suc e"
      "\<forall>x. Suc b \<le> x \<and> x < b' \<longrightarrow> id_to_slot c (of_nat x) \<noteq> None"
      "b' \<le> e \<longrightarrow> id_to_slot c (of_nat b') = None"
      "case spec_read_blocks c off len [Suc b ..< Suc e] (copied + ?n) ?out of
         None \<Rightarrow> b' = Suc b \<and> copied + ?n = 0
       | Some (n, out') \<Rightarrow> n = min len (b' * spec_B - off) \<and> (b' = Suc b \<longrightarrow> Suc b = Suc e \<or> copied + ?n \<noteq> 0)"
      by blast
    have pres: "\<forall>x. b \<le> x \<and> x < b' \<longrightarrow> id_to_slot c (of_nat x) \<noteq> None"
    proof (intro allI impI)
      fix x assume x: "b \<le> x \<and> x < b'"
      show "id_to_slot c (of_nat x) \<noteq> None"
      proof (cases "x = b")
        case True
        with Some show ?thesis by simp
      next
        case False
        with x have "Suc b \<le> x \<and> x < b'" by simp
        with b'(3) show ?thesis by blast
      qed
    qed
    from b'(5) pos obtain n out' where
      res: "spec_read_blocks c off len [Suc b ..< Suc e] (copied + ?n) ?out = Some (n, out')"
        "n = min len (b' * spec_B - off)"
      by (cases "spec_read_blocks c off len [Suc b ..< Suc e] (copied + ?n) ?out") auto
    from b'(1) have "b \<le> b'" "b' \<noteq> b" by simp_all
    with b'(2,4) pres res show ?thesis
      unfolding unfold by (intro exI [of _ b']) (simp del: upt_Suc)
  qed
qed

lemma unat_BLOCK_SIZE': "unat BLOCK_SIZE = spec_B"
  by (simp add: BLOCK_SIZE_def spec_B_def)

lemma unat_block_of': "unat (x div BLOCK_SIZE) = unat x div spec_B"
  by (simp add: unat_div unat_BLOCK_SIZE')

lemma unat_min: "unat (min x y) = min (unat x) (unat y)"
  for x y :: "'a::len word"
  by (simp add: min_def word_le_nat_alt)

lemma unat_last_byte:
  fixes offset len :: u64
  assumes "0 < unat len" "unat offset + unat len \<le> 2 ^ 64"
  shows "unat (offset + len - 1) = unat offset + unat len - 1"
proof -
  obtain k where k: "unat len = Suc k"
    using assms(1) by (cases "unat len") auto
  have "word_of_nat (Suc k) = len"
    unfolding k [symmetric] by simp
  then have "len - 1 = word_of_nat k"
    by auto
  then have "word_of_nat (unat offset + k) = offset + len - 1"
    by simp
  moreover have "unat offset + k < 2 ^ LENGTH(64)"
    using assms(2) k by simp
  ultimately have "unat (offset + len - 1) = unat offset + k"
    by (rule of_nat_inverse)
  with k show ?thesis by simp
qed

lemma read_step_nat:
  fixes offset len copied b :: u64
  assumes "unat copied \<le> unat len"
  defines "bo \<equiv> (if b = offset div BLOCK_SIZE then offset mod BLOCK_SIZE else 0)"
  defines "t \<equiv> min (BLOCK_SIZE - bo) (len - copied)"
  shows "unat bo = (if unat b = unat offset div spec_B then unat offset mod spec_B else 0)"
    and "unat t = min (spec_B - unat bo) (unat len - unat copied)"
    and "unat (copied + t) = unat copied + unat t"
    and "unat (copied + t) \<le> unat len"
proof -
  show bo: "unat bo = (if unat b = unat offset div spec_B then unat offset mod spec_B else 0)"
    by (simp add: bo_def word_unat_eq_iff unat_block_of' unat_mod unat_BLOCK_SIZE')
  have "unat bo < spec_B"
    unfolding bo using spec_B_pos by simp
  then have "bo \<le> BLOCK_SIZE"
    by (simp add: word_le_nat_alt unat_BLOCK_SIZE')
  then have a: "unat (BLOCK_SIZE - bo) = spec_B - unat bo"
    by (simp add: unat_sub unat_BLOCK_SIZE')
  from assms(1) have "copied \<le> len"
    by (simp add: word_le_nat_alt)
  then have r: "unat (len - copied) = unat len - unat copied"
    by (simp add: unat_sub)
  show t: "unat t = min (spec_B - unat bo) (unat len - unat copied)"
    by (simp add: t_def unat_min a r)
  have "unat len < 2 ^ 64"
    using unsigned_less [of len, where 'a = nat] by simp
  with t assms(1) have "unat copied + unat t < 2 ^ LENGTH(64)"
    by simp
  then show s: "unat (copied + t) = unat copied + unat t"
    by (simp only: unat_add_lem)
  from t assms(1) show "unat (copied + t) \<le> unat len"
    unfolding s by simp
qed

lemma read_loop_refines:
  fixes offset len :: u64
  assumes nowrap: "unat offset + unat len \<le> 2 ^ 64" and pos: "0 < unat len"
    and cop: "unat copied \<le> unat len"
    and same: "id_to_slot c' = id_to_slot c" "\<forall>j. data (slots c' ! j) = data (slots c ! j)"
  shows "\<exists>c'' ob. id_to_slot c'' = id_to_slot c \<and> (\<forall>j. data (slots c'' ! j) = data (slots c ! j)) \<and>
        read_loop offset len True b copied out c' =
          (case spec_read_blocks c (unat offset) (unat len)
                  [unat b ..< Suc ((unat offset + unat len - 1) div spec_B)] (unat copied) out of
             None \<Rightarrow> (- 1, ob, None, c'')
           | Some (n, out') \<Rightarrow> (to_int (of_nat n), out', Some (of_nat n), c''))"
  using cop same
proof (induction "Suc ((unat offset + unat len - 1) div spec_B) - unat b" arbitrary: b copied out c')
  case 0
  let ?E = "(unat offset + unat len - 1) div spec_B"
  have E: "unat ((offset + len - 1) div BLOCK_SIZE) = ?E"
    by (simp add: unat_block_of' unat_last_byte [OF pos nowrap])
  from "0.hyps" have "?E < unat b" by simp
  then have nle: "\<not> b \<le> (offset + len - 1) div BLOCK_SIZE"
    by (simp add: word_le_nat_alt E)
  have "[unat b ..< Suc ?E] = []"
    using \<open>?E < unat b\<close> by simp
  then have "spec_read_blocks c (unat offset) (unat len) [unat b ..< Suc ?E] (unat copied) out
      = Some (unat copied, out)"
    by (simp del: upt_Suc)
  moreover have "read_loop offset len True b copied out c' = (to_int copied, out, Some copied, c')"
    using nle by (subst read_loop.simps) simp
  ultimately show ?case
    using "0.prems"(2,3) by (intro exI [of _ c']) (simp del: upt_Suc)
next
  case (Suc m)
  let ?E = "(unat offset + unat len - 1) div spec_B"
  have E: "unat ((offset + len - 1) div BLOCK_SIZE) = ?E"
    by (simp add: unat_block_of' unat_last_byte [OF pos nowrap])
  from Suc.hyps(2) have b: "unat b \<le> ?E" by simp
  then have le: "b \<le> (offset + len - 1) div BLOCK_SIZE"
    by (simp add: word_le_nat_alt E)
  from b have "unat b < Suc ?E" by simp
  then have up: "[unat b ..< Suc ?E] = unat b # [Suc (unat b) ..< Suc ?E]"
    by (rule upt_conv_Cons)
  have lookup: "id_to_slot c (word_of_nat (unat b)) = id_to_slot c b"
    by simp
  show ?case
  proof (cases "id_to_slot c b")
    case None
    have z: "0 < copied \<longleftrightarrow> unat copied \<noteq> 0"
      by (simp add: word_less_nat_alt)
    from None have "spec_read_blocks c (unat offset) (unat len) [unat b ..< Suc ?E] (unat copied) out
      = (if unat copied = 0 then None else Some (unat copied, out))"
      unfolding up by (simp add: lookup)
    moreover have "read_loop offset len True b copied out c' =
        (if 0 < copied then (to_int copied, out, Some copied, c') else (- 1, out, None, c'))"
      using le None Suc.prems(2) by (subst read_loop.simps) simp
    ultimately show ?thesis
      using Suc.prems(2,3) z by (intro exI [of _ c'] exI [of _ out]) (simp del: upt_Suc)
  next
    case (Some i)
    let ?bo = "if b = offset div BLOCK_SIZE then offset mod BLOCK_SIZE else 0"
    let ?t = "min (BLOCK_SIZE - ?bo) (len - copied)"
    let ?nbo = "if unat b = unat offset div spec_B then unat offset mod spec_B else 0"
    let ?n = "min (spec_B - ?nbo) (unat len - unat copied)"
    let ?out = "out @ take ?n (drop ?nbo (data (slots c ! i)))"
    note st = read_step_nat [OF Suc.prems(1), of b offset]
    have bo: "unat ?bo = ?nbo" by (rule st(1))
    have t: "unat ?t = ?n" using st(2) unfolding bo .
    have ct: "unat (copied + ?t) = unat copied + ?n" using st(3) unfolding t .
    have cl: "unat (copied + ?t) \<le> unat len" by (rule st(4))
    have "unat (offset + len - 1) < 2 ^ 64"
      using unsigned_less [of "offset + len - 1", where 'a = nat] by simp
    then have "?E < 2 ^ 64 - 1"
      unfolding E [symmetric] unat_block_of' by (simp add: spec_B_def)
    with b have "unat b + 1 < 2 ^ 64" by simp
    then have b1: "unat (b + 1) = Suc (unat b)"
      by (simp add: unat_word_ariths)
    have m: "m = Suc ?E - unat (b + 1)"
      using Suc.hyps(2) b1 by simp
    have same': "id_to_slot (touch i c') = id_to_slot c"
      "\<forall>j. data (slots (touch i c') ! j) = data (slots c ! j)"
      using Suc.prems(2,3) by (simp_all add: touch_frame touch_nth)
    from Suc.hyps(1) [OF m cl same', of ?out]
    obtain c'' ob where c'': "id_to_slot c'' = id_to_slot c" "\<forall>j. data (slots c'' ! j) = data (slots c ! j)"
      "read_loop offset len True (b + 1) (copied + ?t) ?out (touch i c') =
          (case spec_read_blocks c (unat offset) (unat len)
                  [Suc (unat b) ..< Suc ?E] (unat copied + ?n) ?out of
             None \<Rightarrow> (- 1, ob, None, c'')
           | Some (n, out') \<Rightarrow> (to_int (of_nat n), out', Some (of_nat n), c''))"
      unfolding b1 ct by blast
    have spec: "spec_read_blocks c (unat offset) (unat len) [unat b ..< Suc ?E] (unat copied) out =
        spec_read_blocks c (unat offset) (unat len) [Suc (unat b) ..< Suc ?E] (unat copied + ?n) ?out"
      unfolding up using Some by (simp add: lookup Let_def del: upt_Suc)
    have code: "read_loop offset len True b copied out c' =
        read_loop offset len True (b + 1) (copied + ?t) ?out (touch i c')"
      using le Some Suc.prems(2,3) bo t
      by (subst read_loop.simps) (simp add: Let_def)
    show ?thesis
      unfolding spec code c''(3) using c''(1,2) by blast
  qed
qed

lemma to_int_of_nat:
  assumes "n < 2 ^ 31"
  shows "to_int (word_of_nat n) = int n"
proof -
  from assms have "n < 2 ^ 64"
    by (rule less_le_trans) simp
  then have "take_bit 64 n = n"
    by (simp add: take_bit_nat_eq_self)
  then have "(ucast (word_of_nat n :: u64) :: 32 word) = word_of_nat n"
    by (simp add: unsigned_of_nat)
  moreover have "signed_take_bit 31 (int n) = int n"
    using assms by (intro signed_take_bit_int_eq_self) simp_all
  then have "sint (word_of_nat n :: 32 word) = int n"
    by (simp add: signed_of_nat)
  ultimately show ?thesis
    by (simp add: to_int_def)
qed

text \<open>
  C1, amended. Let \<open>len > 0\<close>, \<open>offset + len \<le> 2^64\<close> and \<open>len < 2^31\<close>. The read
  returns \<open>-1\<close> exactly when the first needed block \<open>offset div B\<close> is unmapped, and
  then nothing is copied, \<open>out_actual_len\<close> is not written and the cache is unchanged.
  Otherwise it returns the number of bytes copied, which with the bytes themselves is
  what the specification's block-by-block procedure \<open>spec_read\<close> yields: blocks in
  increasing order from \<open>offset div B\<close>, \<open>min(B - block_offset, len - copied)\<close> bytes of
  each, up to the first unmapped block. The count is positive; it equals \<open>len\<close> when
  every block of the range is mapped and is below \<open>len\<close> when one is not. Without
  the first bound \<open>offset + len - 1\<close> wraps: the counterexample reads 2 bytes at
  offset \<open>2^64 - 1\<close> with the block unmapped and gets 0, not \<open>-1\<close>.
\<close>

theorem read_multi_block:
  fixes offset len :: u64
  assumes pos: "0 < unat len" and nowrap: "unat offset + unat len \<le> 2 ^ 64"
    and fits: "unat len < 2 ^ 31"
  shows "(fst (read offset len True c) = - 1 \<longleftrightarrow> id_to_slot c (offset div BLOCK_SIZE) = None) \<and>
    (id_to_slot c (offset div BLOCK_SIZE) = None \<longrightarrow> read offset len True c = (- 1, [], None, c)) \<and>
    (id_to_slot c (offset div BLOCK_SIZE) \<noteq> None \<longrightarrow>
       (\<exists>copied out c'.
          read offset len True c = (int copied, out, Some (word_of_nat copied), c') \<and>
          spec_read c (unat offset) (unat len) = Some (copied, out) \<and>
          0 < copied \<and> copied \<le> unat len \<and>
          ((\<forall>b. offset div BLOCK_SIZE \<le> b \<and> b \<le> (offset + len - 1) div BLOCK_SIZE \<longrightarrow>
                id_to_slot c b \<noteq> None) \<longrightarrow> copied = unat len) \<and>
          ((\<exists>b. offset div BLOCK_SIZE \<le> b \<and> b \<le> (offset + len - 1) div BLOCK_SIZE \<and>
                id_to_slot c b = None) \<longrightarrow> copied < unat len)))"
proof -
  let ?off = "unat offset" and ?len = "unat len"
  let ?S = "?off div spec_B" and ?E = "(?off + ?len - 1) div spec_B"
  have S: "unat (offset div BLOCK_SIZE) = ?S"
    by (rule unat_block_of')
  have E: "unat ((offset + len - 1) div BLOCK_SIZE) = ?E"
    by (simp add: unat_block_of' unat_last_byte [OF pos nowrap])
  have SE: "?S \<le> ?E"
    using pos by (intro div_le_mono) simp
  then have le: "offset div BLOCK_SIZE \<le> (offset + len - 1) div BLOCK_SIZE"
    by (simp add: word_le_nat_alt S E)
  have S_word: "word_of_nat ?S = offset div BLOCK_SIZE"
    unfolding S [symmetric] by simp
  have miss: "read offset len True c = (- 1, [], None, c)"
    if "id_to_slot c (offset div BLOCK_SIZE) = None"
  proof (cases "id_to_slot c = Map.empty")
    case True
    then show ?thesis by (simp add: read_def)
  next
    case False
    with that le show ?thesis
      by (simp add: read_def) (subst read_loop.simps, simp)
  qed
  have hit: "\<exists>copied out c'.
          read offset len True c = (int copied, out, Some (word_of_nat copied), c') \<and>
          spec_read c ?off ?len = Some (copied, out) \<and>
          0 < copied \<and> copied \<le> ?len \<and>
          ((\<forall>b. offset div BLOCK_SIZE \<le> b \<and> b \<le> (offset + len - 1) div BLOCK_SIZE \<longrightarrow>
                id_to_slot c b \<noteq> None) \<longrightarrow> copied = ?len) \<and>
          ((\<exists>b. offset div BLOCK_SIZE \<le> b \<and> b \<le> (offset + len - 1) div BLOCK_SIZE \<and>
                id_to_slot c b = None) \<longrightarrow> copied < ?len)"
    if present: "id_to_slot c (offset div BLOCK_SIZE) \<noteq> None"
  proof -
    from present have ne: "id_to_slot c \<noteq> Map.empty" by auto
    have "?S * spec_B \<le> ?off" by simp
    then have zero: "0 = min ?len (?S * spec_B - ?off)" by simp
    from spec_read_blocks_result [OF order_refl _ zero pos, of ?E c "[]"] SE
    obtain b' where b': "?S \<le> b'" "b' \<le> Suc ?E"
      "\<forall>x. ?S \<le> x \<and> x < b' \<longrightarrow> id_to_slot c (word_of_nat x) \<noteq> None"
      "b' \<le> ?E \<longrightarrow> id_to_slot c (word_of_nat b') = None"
      "case spec_read c ?off ?len of
         None \<Rightarrow> b' = ?S \<and> (0 :: nat) = 0
       | Some (n, out') \<Rightarrow> n = min ?len (b' * spec_B - ?off) \<and> (b' = ?S \<longrightarrow> ?S = Suc ?E \<or> (0 :: nat) \<noteq> 0)"
      unfolding spec_read_def by auto
    have "spec_read c ?off ?len \<noteq> None"
    proof
      assume "spec_read c ?off ?len = None"
      with b'(5) have "b' = ?S" by simp
      with b'(4) SE present show False by (simp add: S_word)
    qed
    then obtain n out where res: "spec_read c ?off ?len = Some (n, out)"
      by (cases "spec_read c ?off ?len") auto
    with b'(5) SE have n: "n = min ?len (b' * spec_B - ?off)" and "b' \<noteq> ?S"
      by auto
    with b'(1) have "Suc ?S \<le> b'" by simp
    then have "Suc ?S * spec_B \<le> b' * spec_B" by (rule mult_le_mono1)
    with off_below_next [OF order_refl, of ?off] have "?off < b' * spec_B" by simp
    with n pos have npos: "0 < n" by simp
    from n have nle: "n \<le> ?len" by simp
    with fits have "n < 2 ^ 31" by simp
    then have ti: "to_int (word_of_nat n) = int n" by (rule to_int_of_nat)
    from read_loop_refines [OF nowrap pos, of 0 c c "offset div BLOCK_SIZE" "[]"]
    obtain c'' ob where "read_loop offset len True (offset div BLOCK_SIZE) 0 [] c =
        (case spec_read c ?off ?len of
           None \<Rightarrow> (- 1, ob, None, c'')
         | Some (n, out') \<Rightarrow> (to_int (word_of_nat n), out', Some (word_of_nat n), c''))"
      unfolding spec_read_def S by auto
    with ne res ti have rd: "read offset len True c = (int n, out, Some (word_of_nat n), c'')"
      by (simp add: read_def)
    have in_range: "unat (word_of_nat x :: u64) = x" if "x \<le> ?E" for x
    proof -
      have "unat ((offset + len - 1) div BLOCK_SIZE) < 2 ^ LENGTH(64)"
        by (rule unsigned_less)
      with that have "x < 2 ^ LENGTH(64)" unfolding E by simp
      with refl show ?thesis by (rule of_nat_inverse)
    qed
    have full: "n = ?len"
      if all: "\<forall>b. offset div BLOCK_SIZE \<le> b \<and> b \<le> (offset + len - 1) div BLOCK_SIZE \<longrightarrow>
                id_to_slot c b \<noteq> None"
    proof -
      have "\<not> b' \<le> ?E"
      proof
        assume "b' \<le> ?E"
        with b'(4) have ab: "id_to_slot c (word_of_nat b') = None" by simp
        from \<open>b' \<le> ?E\<close> b'(1) have "offset div BLOCK_SIZE \<le> word_of_nat b' \<and>
              word_of_nat b' \<le> (offset + len - 1) div BLOCK_SIZE"
          by (simp add: word_le_nat_alt S E in_range)
        with all ab show False by blast
      qed
      with b'(2) have "b' = Suc ?E" by simp
      moreover have "?off + ?len - 1 < Suc ?E * spec_B"
        by (rule off_below_next) simp
      ultimately show ?thesis using n pos by simp
    qed
    have partial: "n < ?len"
      if "\<exists>b. offset div BLOCK_SIZE \<le> b \<and> b \<le> (offset + len - 1) div BLOCK_SIZE \<and>
                id_to_slot c b = None"
    proof -
      from that obtain b where b: "?S \<le> unat b" "unat b \<le> ?E" "id_to_slot c b = None"
        by (auto simp: word_le_nat_alt S E)
      have "b' \<le> unat b"
      proof (rule ccontr)
        assume "\<not> b' \<le> unat b"
        with b(1) have "?S \<le> unat b \<and> unat b < b'" by simp
        with b'(3) have "id_to_slot c (word_of_nat (unat b)) \<noteq> None" by blast
        with b(3) show False by simp
      qed
      with b(2) have "b' \<le> ?E" by simp
      then have "b' * spec_B \<le> ?E * spec_B" by (rule mult_le_mono1)
      also have "\<dots> \<le> ?off + ?len - 1" by simp
      finally have "b' * spec_B - ?off \<le> ?len - 1" by simp
      with n pos show ?thesis by simp
    qed
    from rd res npos nle full partial show ?thesis by blast
  qed
  have iff: "fst (read offset len True c) = - 1 \<longleftrightarrow> id_to_slot c (offset div BLOCK_SIZE) = None"
  proof
    assume "id_to_slot c (offset div BLOCK_SIZE) = None"
    then show "fst (read offset len True c) = - 1" by (simp add: miss)
  next
    assume m: "fst (read offset len True c) = - 1"
    show "id_to_slot c (offset div BLOCK_SIZE) = None"
    proof (rule ccontr)
      assume "id_to_slot c (offset div BLOCK_SIZE) \<noteq> None"
      from hit [OF this] obtain copied out c' where
        "read offset len True c = (int copied, out, Some (word_of_nat copied), c')"
        by blast
      with m have "int copied = - 1" by simp
      then show False by simp
    qed
  qed
  from iff miss hit show ?thesis by blast
qed

lemma full8_lookup:
  "id_to_slot full8 10 = Some 0" "id_to_slot full8 17 = Some 7" "id_to_slot full8 18 = None"
  "id_to_slot full8 0 = None" "id_to_slot full8 140737488355327 = None"
  by (simp_all add: full8_eq)

theorem read_multi_block_witness:
  "0 < unat (2 :: u64) \<and> unat (2359295 :: u64) + unat (2 :: u64) \<le> 2 ^ 64 \<and> unat (2 :: u64) < 2 ^ 31 \<and>
   id_to_slot full8 (2359295 div BLOCK_SIZE) \<noteq> None \<and>
   id_to_slot full8 ((2359295 + 2 - 1) div BLOCK_SIZE) = None \<and>
   (\<exists>copied out c'.
      read 2359295 2 True full8 = (int copied, out, Some (word_of_nat copied), c') \<and>
      spec_read full8 2359295 2 = Some (copied, out) \<and> 0 < copied \<and> copied < 2) \<and>
   id_to_slot full8 (1310720 div BLOCK_SIZE) \<noteq> None \<and>
   (\<exists>out c'. read 1310720 16 True full8 = (16, out, Some 16, c') \<and>
      spec_read full8 1310720 16 = Some (16, out)) \<and>
   id_to_slot full8 (0 div BLOCK_SIZE) = None \<and>
   read 0 16 True full8 = (- 1, [], None, full8)"
proof -
  have blocks: "(2359295 :: u64) div BLOCK_SIZE = 17" "((2359295 :: u64) + 2 - 1) div BLOCK_SIZE = 18"
    "(1310720 :: u64) div BLOCK_SIZE = 10" "((1310720 :: u64) + 16 - 1) div BLOCK_SIZE = 10"
    "(0 :: u64) div BLOCK_SIZE = 0" "(2359296 :: u64) div BLOCK_SIZE = 18"
    by (simp_all add: BLOCK_SIZE_def)
  have h2: "0 < unat (2 :: u64)" "unat (2359295 :: u64) + unat (2 :: u64) \<le> 2 ^ 64" "unat (2 :: u64) < 2 ^ 31"
    and h16: "0 < unat (16 :: u64)" "unat (1310720 :: u64) + unat (16 :: u64) \<le> 2 ^ 64"
      "unat (0 :: u64) + unat (16 :: u64) \<le> 2 ^ 64" "unat (16 :: u64) < 2 ^ 31"
    by simp_all
  note partial = read_multi_block [OF h2, of full8, unfolded blocks, THEN conjunct2, THEN conjunct2, rule_format]
  note full = read_multi_block [OF h16(1,2,4), of full8, unfolded blocks, THEN conjunct2, THEN conjunct2, rule_format]
  note miss = read_multi_block [OF h16(1,3,4), of full8, unfolded blocks, THEN conjunct2, THEN conjunct1, rule_format]
  have "17 \<le> (18 :: u64) \<and> (18 :: u64) \<le> 18 \<and> id_to_slot full8 18 = None"
    by (simp add: full8_lookup)
  then have ex: "\<exists>b. 17 \<le> b \<and> b \<le> 18 \<and> id_to_slot full8 b = None"
    by (rule exI)
  from partial have p: "\<exists>copied out c'.
      read 2359295 2 True full8 = (int copied, out, Some (word_of_nat copied), c') \<and>
      spec_read full8 2359295 2 = Some (copied, out) \<and> 0 < copied \<and> copied < 2"
    using ex by (simp add: full8_lookup) blast
  have all: "\<forall>b. 10 \<le> b \<and> b \<le> 10 \<longrightarrow> id_to_slot full8 b \<noteq> None"
    using full8_lookup(1) by auto
  from full obtain copied out c' where
    "read 1310720 16 True full8 = (int copied, out, Some (word_of_nat copied), c')"
    "spec_read full8 1310720 16 = Some (copied, out)" "copied = 16"
    using all by (simp add: full8_lookup) blast
  then have f: "\<exists>out c'. read 1310720 16 True full8 = (16, out, Some 16, c') \<and>
      spec_read full8 1310720 16 = Some (16, out)"
    by auto
  from miss have m: "read 0 16 True full8 = (- 1, [], None, full8)"
    by (simp add: full8_lookup)
  from p f m show ?thesis
    by (simp add: blocks full8_lookup)
qed

theorem read_multi_block_counterexample:
  "0 < (2 :: u64) \<and>
   id_to_slot full8 (18446744073709551615 div BLOCK_SIZE) = None \<and>
   read 18446744073709551615 2 True full8 = (0, [], Some 0, full8)"
proof -
  have "id_to_slot full8 \<noteq> Map.empty"
    using full8_lookup(1) by auto
  then have "read 18446744073709551615 2 True full8 = (0, [], Some 0, full8)"
    by (simp add: read_def) (subst read_loop.simps, simp add: BLOCK_SIZE_def)
  then show ?thesis
    by (simp add: BLOCK_SIZE_def full8_lookup word_less_nat_alt)
qed

subsection \<open>Further facts\<close>

text \<open>
  What does hold of the adaptive timeout: every read keeps it between 2 and 21.
  A cache in which the stamps are pairwise distinct, as they are while the access
  counter has not wrapped, has a stamp below \<open>UINT64_MAX\<close> as soon as it has two
  slots. A cache without slots, as before \<open>init\<close>, has no victim: \<open>evict_lru\<close>
  returns \<open>-1\<close> and \<open>put_block\<close> stores nothing. And \<open>BlockCache::read\<close> itself,
  called with length 0, still stamps the block it looks up; the VFS read never makes
  that call.
\<close>

lemma cache_loop_timeout_bounds:
  assumes "cache_loop sched file len total_read buf st = Some (total_read', buf', st')"
    "2 \<le> g_adaptive_timeout_ms st" "g_adaptive_timeout_ms st \<le> 21"
  shows "2 \<le> g_adaptive_timeout_ms st' \<and> g_adaptive_timeout_ms st' \<le> 21"
  using assms
proof (induction sched arbitrary: total_read buf st)
  case Nil
  then show ?case
    by (subst (asm) cache_loop.simps)
       (auto simp: Let_def split: if_splits prod.splits option.splits)
next
  case (Cons ev sched)
  let ?t = "g_adaptive_timeout_ms st"
  obtain res out actual c1 where rd:
    "read (file_offset file + total_read) (len - total_read) True (cache st) = (res, out, actual, c1)"
    by (cases "read (file_offset file + total_read) (len - total_read) True (cache st)") auto
  show ?case
  proof (cases "total_read < len")
    case False
    with Cons.prems show ?thesis
      by (subst (asm) cache_loop.simps) simp
  next
    case lt: True
    show ?thesis
    proof (cases "0 < res")
      case False
      obtain ok c2 where w: "wait_for_block ((file_offset file + total_read) div BLOCK_SIZE) ?t (arrivals ev) c1 = (ok, c2)"
        by (cases "wait_for_block ((file_offset file + total_read) div BLOCK_SIZE) ?t (arrivals ev) c1") auto
      from Cons.prems(1) lt False rd w have
        "(if ok then cache_loop sched file len total_read buf (st\<lparr>cache := c2\<rparr>)
          else Some (total_read, buf, st\<lparr>cache := c2\<rparr>)) = Some (total_read', buf', st')"
        by (subst (asm) cache_loop.simps) (simp add: Let_def)
      then show ?thesis
        using Cons.IH [of total_read buf "st\<lparr>cache := c2\<rparr>"] Cons.prems(2,3)
        by (auto split: if_splits)
    next
      case pos: True
      let ?tr = "total_read + (case actual of None \<Rightarrow> 0 | Some n \<Rightarrow> n)"
      show ?thesis
      proof (cases "len \<le> ?tr")
        case True
        with Cons.prems lt pos rd show ?thesis
          by (subst (asm) cache_loop.simps) (auto simp: Let_def)
      next
        case False
        obtain ok c2 where w: "wait_for_block ((file_offset file + ?tr) div BLOCK_SIZE) ?t (arrivals ev) c1 = (ok, c2)"
          by (cases "wait_for_block ((file_offset file + ?tr) div BLOCK_SIZE) ?t (arrivals ev) c1") auto
        from Cons.prems(1) lt pos rd w False have
          "(if ok then cache_loop sched file len ?tr (buf @ out)
                (st\<lparr>cache := c2, g_adaptive_timeout_ms := (if wait_ms ev < ?t div 2 \<and> 2 < ?t then ?t - 1 else ?t)\<rparr>)
            else Some (?tr, buf @ out,
                st\<lparr>cache := c2, g_adaptive_timeout_ms := (if ?t < 20 then ?t + 2 else ?t)\<rparr>))
           = Some (total_read', buf', st')"
          by (subst (asm) cache_loop.simps) (simp add: Let_def)
        then show ?thesis
          using Cons.IH [of ?tr "buf @ out"
              "st\<lparr>cache := c2, g_adaptive_timeout_ms := (if wait_ms ev < ?t div 2 \<and> 2 < ?t then ?t - 1 else ?t)\<rparr>"]
            Cons.prems(2,3)
          by (auto split: if_splits)
      qed
    qed
  qed
qed

lemma retro_vfs_read_timeout_bounds:
  assumes "retro_vfs_read sched nfs_pread stream s len st = Some (r, bytes, f, st')"
    "2 \<le> g_adaptive_timeout_ms st" "g_adaptive_timeout_ms st \<le> 21"
  shows "2 \<le> g_adaptive_timeout_ms st' \<and> g_adaptive_timeout_ms st' \<le> 21"
proof (cases stream)
  case None
  with assms show ?thesis by (simp add: retro_vfs_read_def)
next
  case (Some fl)
  show ?thesis
  proof (cases s)
    case False
    with Some assms show ?thesis by (simp add: retro_vfs_read_def)
  next
    case True
    let ?st0 = "if g_prefetch_callback st
                then prefetch (file_offset fl div BLOCK_SIZE + 2)
                       (prefetch (file_offset fl div BLOCK_SIZE + 1)
                         (prefetch (file_offset fl div BLOCK_SIZE) st))
                else st"
    have t0: "g_adaptive_timeout_ms ?st0 = g_adaptive_timeout_ms st"
      by (simp add: prefetch_def)
    from assms(1) Some True obtain total_read buf st1 where
      cl: "cache_loop sched fl len 0 [] ?st0 = Some (total_read, buf, st1)"
      by (cases "cache_loop sched fl len 0 [] ?st0") (auto simp: retro_vfs_read_def Let_def)
    from cache_loop_timeout_bounds [OF cl] assms(2,3) t0
    have b1: "2 \<le> g_adaptive_timeout_ms st1 \<and> g_adaptive_timeout_ms st1 \<le> 21"
      by simp
    obtain sync_res sbytes where pr: "nfs_pread (len - total_read) (file_offset fl + total_read) = (sync_res, sbytes)"
      by (cases "nfs_pread (len - total_read) (file_offset fl + total_read)") auto
    from assms(1) Some True cl pr have "g_adaptive_timeout_ms st' = g_adaptive_timeout_ms st1"
      by (auto simp: retro_vfs_read_def Let_def backfill_timeout split: if_splits)
    with b1 show ?thesis by simp
  qed
qed

lemma distinct_stamps_below_max:
  assumes "distinct (map last_access ss)" "2 \<le> length ss"
  shows "\<exists>s \<in> set ss. last_access s \<noteq> UINT64_MAX"
proof (rule ccontr)
  assume "\<not> (\<exists>s \<in> set ss. last_access s \<noteq> UINT64_MAX)"
  then have all: "\<forall>s \<in> set ss. last_access s = UINT64_MAX" by simp
  from assms(2) have "0 < length ss" "1 < length ss" by linarith+
  with all have "last_access (ss ! 0) = last_access (ss ! 1)" by simp
  moreover from assms(1) \<open>0 < length ss\<close> \<open>1 < length ss\<close>
  have "map last_access ss ! 0 \<noteq> map last_access ss ! 1"
    by (simp add: nth_eq_iff_index_eq del: nth_map)
  ultimately show False
    using \<open>0 < length ss\<close> \<open>1 < length ss\<close> by simp
qed

lemma exclusive_mapping_as_stated:
  assumes "exclusive_mapping c"
  shows "(\<forall>b i. id_to_slot c b = Some i \<longrightarrow> valid (slots c ! i) \<and> block_id (slots c ! i) = b) \<and>
         (\<forall>i < length (slots c). valid (slots c ! i) \<longrightarrow> block_id (slots c ! i) \<in> dom (id_to_slot c))"
  using assms by (auto simp: exclusive_mapping_def)

lemma evict_lru_no_slots: "slots c = [] \<Longrightarrow> evict_lru c = (None, c)"
  by (simp add: evict_lru_def)

lemma put_block_no_slots: "slots c = [] \<Longrightarrow> put_block b src len c = c"
  by (simp add: put_block_def evict_lru_no_slots)

lemma read_zero_length_stamps:
  "read 1310725 0 True full8 = (0, [], Some 0, touch 0 full8)"
proof -
  have "id_to_slot full8 \<noteq> Map.empty"
    using full8_lookup(1) by auto
  then show ?thesis
    by (simp add: read_def)
       (subst read_loop.simps, simp add: BLOCK_SIZE_def Let_def full8_lookup,
        subst read_loop.simps, simp add: BLOCK_SIZE_def Let_def)
qed

end
